theory Spec2Isabelle
  imports Complex_Main
begin

section \<open>Shared data of the media pipeline\<close>

text \<open>
  Python exceptions are values. Timestamps and confidences are Python floats; they are
  idealised as reals, and the code only compares, subtracts and clips them.
  Log lines keep the level and an ASCII rendering of the message.
\<close>

datatype py_error = IndexError | KeyError | AttributeError | ZeroDivisionError | OtherError string

datatype log_level = DEBUG | INFO | WARNING | ERROR

type_synonym log_line = "log_level \<times> string"

text \<open>A decoded image (numpy array): \<open>shape[:2]\<close> and the elements; \<open>size\<close> counts the elements.\<close>

record frame =
  fheight :: nat
  fwidth :: nat
  pixels :: "nat list"

definition frame_size :: "frame \<Rightarrow> nat" where
  "frame_size f = length (pixels f)"

text \<open>The metadata dict handed along with a frame; a missing key is \<open>None\<close>.\<close>

record metadata =
  md_camera_name :: "string option"
  md_timestamp :: "real option"
  md_width :: "nat option"
  md_height :: "nat option"

text \<open>The event dict built by the event detector and read by the recorder.\<close>

record event =
  ev_type :: "string option"
  ev_confidence :: "real option"
  ev_bbox :: "real list option"
  ev_timestamp :: "real option"
  ev_camera_name :: "string option"

text \<open>Python's \<open>int(x)\<close> on a float truncates towards zero.\<close>

definition py_int :: "real \<Rightarrow> int" where
  "py_int x = (if 0 \<le> x then \<lfloor>x\<rfloor> else \<lceil>x\<rceil>)"

definition get_or :: "'a option \<Rightarrow> 'a \<Rightarrow> 'a" where
  "get_or v d = (case v of None \<Rightarrow> d | Some x \<Rightarrow> x)"

section \<open>core/recording.py: VideoRecorder\<close>

text \<open>One entry of a camera's frame buffer: the dict \<open>{'frame', 'timestamp'}\<close>.\<close>

record frame_data =
  fd_frame :: frame
  fd_timestamp :: real

text \<open>
  The fields of a \<open>VideoRecorder\<close> object. \<open>recording_threads\<close> keeps, per camera, the
  arguments of the last thread created for it.
\<close>

record recorder =
  output_dir :: string
  pre_event_seconds :: real
  post_event_seconds :: real
  fps :: int
  codec :: string
  frame_buffer :: "string \<rightharpoonup> frame_data list"
  max_buffer_frames :: int
  recording :: "string \<rightharpoonup> bool"
  recording_threads :: "string \<rightharpoonup> (string \<times> event)"

text \<open>
  What lies outside the object: the recording threads that were started and have not
  finished, the files written under the output directory (a path and the frames the
  file holds), and the log.
\<close>

record world =
  running_jobs :: "(string \<times> event) list"
  files :: "(string \<times> frame list) list"
  logged :: "log_line list"

definition VideoRecorder_init :: "string \<Rightarrow> real \<Rightarrow> real \<Rightarrow> int \<Rightarrow> string \<Rightarrow> recorder" where
  "VideoRecorder_init dir pre post fps_arg codec_arg =
     \<lparr> output_dir = dir, pre_event_seconds = pre, post_event_seconds = post,
       fps = fps_arg, codec = codec_arg, frame_buffer = Map.empty,
       max_buffer_frames = py_int (pre * real_of_int fps_arg),
       recording = Map.empty, recording_threads = Map.empty \<rparr>"

definition buffer_of :: "recorder \<Rightarrow> string \<Rightarrow> frame_data list" where
  "buffer_of r c = get_or (frame_buffer r c) []"

text \<open>
  \<open>add_frame\<close>, lines 60 to 72: the buffer of the camera is created when missing (and its
  recording flag set to False), then the entry is appended.
\<close>

definition append_frame :: "recorder \<Rightarrow> frame \<Rightarrow> metadata \<Rightarrow> real \<Rightarrow> recorder" where
  "append_frame r f md now =
     (let camera_name = get_or (md_camera_name md) ''unknown'';
          timestamp = get_or (md_timestamp md) now;
          r1 = (if frame_buffer r camera_name = None
                then r\<lparr>frame_buffer := (frame_buffer r)(camera_name \<mapsto> []),
                       recording := (recording r)(camera_name \<mapsto> False)\<rparr>
                else r)
      in r1\<lparr>frame_buffer := (frame_buffer r1)(camera_name \<mapsto>
               buffer_of r1 camera_name @ [\<lparr>fd_frame = f, fd_timestamp = timestamp\<rparr>])\<rparr>)"

text \<open>
  Lines 75 and 76: \<open>while len(buf) > max_buffer_frames: buf.pop(0)\<close>. \<open>pop(0)\<close> on an empty
  list raises IndexError, which happens when the capacity is negative.
\<close>

fun limit_buffer :: "int \<Rightarrow> frame_data list \<Rightarrow> frame_data list \<times> py_error option" where
  "limit_buffer m [] = (if int (length ([]::frame_data list)) > m then ([], Some IndexError) else ([], None))"
| "limit_buffer m (x # xs) =
     (if int (length (x # xs)) > m then limit_buffer m xs else (x # xs, None))"

definition add_frame :: "recorder \<Rightarrow> frame option \<Rightarrow> metadata \<Rightarrow> real \<Rightarrow> recorder \<times> py_error option" where
  "add_frame r fo md now =
     (case fo of
        None \<Rightarrow> (r, None)
      | Some f \<Rightarrow>
          if frame_size f = 0 then (r, None)
          else
            (let camera_name = get_or (md_camera_name md) ''unknown'';
                 r1 = append_frame r f md now;
                 (buf, err) = limit_buffer (max_buffer_frames r1) (buffer_of r1 camera_name)
             in (r1\<lparr>frame_buffer := (frame_buffer r1)(camera_name \<mapsto> buf)\<rparr>, err)))"

text \<open>
  A sequence of \<open>add_frame\<close> calls; each call is a frame, its metadata and the clock value
  \<open>time.time()\<close> would give. An exception of one call reaches that call's caller and the
  next call still happens, on the object as the failed call left it.
\<close>

type_synonym add_call = "frame option \<times> metadata \<times> real"

fun add_frames :: "recorder \<Rightarrow> add_call list \<Rightarrow> recorder" where
  "add_frames r [] = r"
| "add_frames r ((fo, md, now) # calls) = add_frames (fst (add_frame r fo md now)) calls"

text \<open>The entries a sequence of calls appends for one camera, in call order.\<close>

fun appended :: "string \<Rightarrow> add_call list \<Rightarrow> frame_data list" where
  "appended c [] = []"
| "appended c ((fo, md, now) # calls) =
     (case fo of
        None \<Rightarrow> appended c calls
      | Some f \<Rightarrow>
          if frame_size f \<noteq> 0 \<and> get_or (md_camera_name md) ''unknown'' = c
          then \<lparr>fd_frame = f, fd_timestamp = get_or (md_timestamp md) now\<rparr> # appended c calls
          else appended c calls)"

text \<open>
  \<open>start_recording\<close>: a trigger for a camera whose flag is set is dropped with a log line;
  so is one for a camera with no buffered frame. Otherwise the flag is set, the thread
  is stored and started.
\<close>

definition start_recording :: "recorder \<Rightarrow> world \<Rightarrow> event \<Rightarrow> recorder \<times> world" where
  "start_recording r w ev =
     (let camera_name = get_or (ev_camera_name ev) ''unknown''
      in if get_or (recording r camera_name) False
         then (r, w\<lparr>logged := logged w @ [(INFO, ''recording already in progress for camera '' @ camera_name)]\<rparr>)
         else if frame_buffer r camera_name = None \<or> buffer_of r camera_name = []
         then (r, w\<lparr>logged := logged w @ [(WARNING, ''no frame in the buffer for camera '' @ camera_name)]\<rparr>)
         else (r\<lparr>recording := (recording r)(camera_name \<mapsto> True),
                  recording_threads := (recording_threads r)(camera_name \<mapsto> (camera_name, ev))\<rparr>,
               w\<lparr>running_jobs := running_jobs w @ [(camera_name, ev)],
                  logged := logged w @ [(INFO, ''starting recording for event on camera '' @ camera_name)]\<rparr>))"

text \<open>
  What a recording thread meets while it runs: the clock, the formatted date of the
  event (\<open>datetime.fromtimestamp\<close> raises on a timestamp out of range), the last buffer
  entries its polling loop sees during the post-event window, and the step, if any, at
  which a call raises. The membership test of the polling loop compares dicts holding
  arrays and may raise as well: that is a fault at \<open>PostCapture\<close>.
\<close>

datatype stage = OpenWriter | WriteFrames | PostCapture | Release | Thumbnail | Metadata

record job_env =
  clock :: real
  stamp :: "py_error + string"
  post_seen :: "frame_data list"
  fault :: "stage option"

definition path_join :: "string \<Rightarrow> string \<Rightarrow> string" where
  "path_join d n =
     (if n \<noteq> [] \<and> hd n = CHR ''/'' then n
      else if d = [] \<or> last d = CHR ''/'' then d @ n
      else d @ ''/'' @ n)"

text \<open>
  The \<open>try\<close> block of \<open>_record_event\<close>: the exception that leaves it (if any), the files
  written with the frames they hold, and the lines logged inside the block. The early
  return on an empty snapshot logs an error and raises nothing.
\<close>

definition record_event_body ::
  "recorder \<Rightarrow> string \<Rightarrow> event \<Rightarrow> job_env \<Rightarrow> py_error option \<times> (string \<times> frame list) list \<times> log_line list" where
  "record_event_body r camera_name ev env =
     (let event_type = get_or (ev_type ev) ''unknown''
      in case stamp env of
           Inl e \<Rightarrow> (Some e, [], [])
         | Inr formatted \<Rightarrow>
             (let filename = camera_name @ ''_'' @ event_type @ ''_'' @ formatted;
                  video_path = path_join (output_dir r) (filename @ ''.mp4'');
                  thumbnail_path = path_join (output_dir r) (filename @ ''_thumb.jpg'');
                  metadata_path = path_join (output_dir r) (filename @ ''.json'')
              in case frame_buffer r camera_name of
                   None \<Rightarrow> (Some KeyError, [], [])
                 | Some frames \<Rightarrow>
                     if frames = []
                     then (None, [], [(ERROR, ''no frame available for recording on camera '' @ camera_name)])
                     else if fault env = Some OpenWriter
                     then (Some (OtherError ''VideoWriter''), [], [])
                     else if fault env = Some WriteFrames
                     then (Some (OtherError ''write''), [(video_path, [])], [])
                     else if fault env = Some PostCapture
                     then (Some (OtherError ''post-event capture''), [(video_path, map fd_frame frames)], [])
                     else
                       (let frames_after_event = filter (\<lambda>d. \<not> List.member frames d) (post_seen env);
                            clip = (video_path, map fd_frame frames @ map fd_frame frames_after_event)
                        in if fault env = Some Release
                           then (Some (OtherError ''release''), [clip], [])
                           else if fault env = Some Thumbnail
                           then (Some (OtherError ''imwrite''), [clip], [])
                           else
                             (let thumb = (thumbnail_path,
                                     [fd_frame (last (if frames_after_event = [] then frames
                                                      else frames_after_event))])
                              in if fault env = Some Metadata
                                 then (Some (OtherError ''open''), [clip, thumb], [])
                                 else (None, [clip, thumb, (metadata_path, [])],
                                       [(INFO, ''event recorded: '' @ video_path)])))))"

text \<open>
  \<open>_record_event\<close> with its \<open>except\<close> and \<open>finally\<close>: an exception is logged, and in
  every case the flag of the camera is set to False. The thread then ends.
\<close>

definition record_event :: "recorder \<Rightarrow> world \<Rightarrow> string \<Rightarrow> event \<Rightarrow> job_env \<Rightarrow> recorder \<times> world" where
  "record_event r w camera_name ev env =
     (let (exc, written, lines) = record_event_body r camera_name ev env;
          lines' = (case exc of None \<Rightarrow> lines
                    | Some e \<Rightarrow> lines @ [(ERROR, ''error while recording event'')])
      in (r\<lparr>recording := (recording r)(camera_name \<mapsto> False)\<rparr>,
          w\<lparr>running_jobs := remove1 (camera_name, ev) (running_jobs w),
            files := files w @ written,
            logged := logged w @ lines'\<rparr>))"

definition is_recording :: "recorder \<Rightarrow> string \<Rightarrow> bool" where
  "is_recording r camera_name = get_or (recording r camera_name) False"

text \<open>
  The recorder in use: frames arrive, events trigger, and a running recording thread
  ends. Each of the three is taken as one step.
\<close>

datatype rec_action =
    AddFrame "frame option" metadata real
  | Trigger event
  | JobEnds nat job_env

fun rec_step :: "recorder \<times> world \<Rightarrow> rec_action \<Rightarrow> recorder \<times> world" where
  "rec_step (r, w) (AddFrame fo md now) = (fst (add_frame r fo md now), w)"
| "rec_step (r, w) (Trigger ev) = start_recording r w ev"
| "rec_step (r, w) (JobEnds i env) =
     (if i < length (running_jobs w)
      then record_event r w (fst (running_jobs w ! i)) (snd (running_jobs w ! i)) env
      else (r, w))"

definition rec_run :: "recorder \<times> world \<Rightarrow> rec_action list \<Rightarrow> recorder \<times> world" where
  "rec_run st acts = foldl rec_step st acts"

definition world_init :: world where
  "world_init = \<lparr>running_jobs = [], files = [], logged = []\<rparr>"

text \<open>The number of recording threads running for a camera.\<close>

definition jobs_of :: "world \<Rightarrow> string \<Rightarrow> nat" where
  "jobs_of w c = length (filter (\<lambda>j. fst j = c) (running_jobs w))"

section \<open>core/detection.py: ObjectDetector and EventDetector\<close>

record detection_result =
  class_id :: int
  class_name :: string
  confidence :: real
  bbox :: "real list"
  frame_width :: nat
  frame_height :: nat

text \<open>
  One row of \<open>results.boxes.data.tolist()\<close>: \<open>x1, y1, x2, y2, conf, class_id\<close>. The loaded
  model is a function of the frame and the confidence threshold that returns rows or
  raises.
\<close>

type_synonym raw_box = "real \<times> real \<times> real \<times> real \<times> real \<times> real"

type_synonym yolo_model = "frame \<Rightarrow> real \<Rightarrow> py_error + raw_box list"

record object_detector =
  conf_threshold :: real
  od_model :: "yolo_model option"
  class_names :: "int \<rightharpoonup> string"

text \<open>Decimal rendering of an integer, as an f-string gives it.\<close>

function str_nat :: "nat \<Rightarrow> string" where
  "str_nat n = (if n < 10 then [char_of (48 + n)]
                else str_nat (n div 10) @ [char_of (48 + n mod 10)])"
  by pat_completeness auto
termination
  by (relation "measure (\<lambda>n. n)") auto

definition str_int :: "int \<Rightarrow> string" where
  "str_int i = (if i < 0 then ''-'' @ str_nat (nat (- i)) else str_nat (nat i))"

definition clamp01 :: "real \<Rightarrow> real" where
  "clamp01 x = max 0 (min 1 x)"

text \<open>
  The loop over the rows. A row whose class is filtered out is skipped before any
  division; dividing by a zero width or height raises ZeroDivisionError.
\<close>

fun convert_boxes ::
  "object_detector \<Rightarrow> string list option \<Rightarrow> nat \<Rightarrow> nat \<Rightarrow> raw_box list \<Rightarrow> py_error + detection_result list" where
  "convert_boxes d classes width height [] = Inr []"
| "convert_boxes d classes width height ((x1, y1, x2, y2, conf, cid) # rest) =
     (let class_id = py_int cid;
          class_name = get_or (class_names d class_id) (''classe_'' @ str_int class_id)
      in if get_or classes [] \<noteq> [] \<and> \<not> List.member (get_or classes []) class_name
         then convert_boxes d classes width height rest
         else if width = 0 \<or> height = 0 then Inl ZeroDivisionError
         else
           (let x_center = clamp01 (((x1 + x2) / 2) / real width);
                y_center = clamp01 (((y1 + y2) / 2) / real height);
                w = clamp01 ((x2 - x1) / real width);
                h = clamp01 ((y2 - y1) / real height);
                detection = \<lparr>class_id = class_id, class_name = class_name, confidence = conf,
                             bbox = [x_center, y_center, w, h],
                             frame_width = width, frame_height = height\<rparr>
            in case convert_boxes d classes width height rest of
                 Inl e \<Rightarrow> Inl e
               | Inr detections \<Rightarrow> Inr (detection # detections)))"

text \<open>
  \<open>ObjectDetector.detect\<close>: the value returned to the caller and the lines logged. A missing
  frame, an empty frame and a missing model return the empty list at once; an exception
  of the inference or of the loop is logged and the empty list returned.
\<close>

definition detect ::
  "object_detector \<Rightarrow> frame option \<Rightarrow> string list option \<Rightarrow> real option \<Rightarrow> detection_result list \<times> log_line list" where
  "detect d fo classes conf =
     (case fo of
        None \<Rightarrow> ([], [])
      | Some f \<Rightarrow>
          if frame_size f = 0 then ([], [])
          else
            (case od_model d of
               None \<Rightarrow> ([], [])
             | Some m \<Rightarrow>
                 (let height = fheight f;
                      width = fwidth f;
                      confidence = (case conf of Some c \<Rightarrow> c | None \<Rightarrow> conf_threshold d)
                  in case m f confidence of
                       Inl e \<Rightarrow> ([], [(ERROR, ''error during object detection'')])
                     | Inr rows \<Rightarrow>
                         (case convert_boxes d classes width height rows of
                            Inl e \<Rightarrow> ([], [(ERROR, ''error during object detection'')])
                          | Inr detections \<Rightarrow> (detections, [])))))"

record event_detector =
  ed_detector :: object_detector
  min_confidence :: real
  classes_of_interest :: "string list"
  last_event_time :: "string \<rightharpoonup> real"
  min_event_interval :: real

definition EventDetector_init :: "object_detector \<Rightarrow> real \<Rightarrow> event_detector" where
  "EventDetector_init det minconf =
     \<lparr> ed_detector = det, min_confidence = minconf,
       classes_of_interest = [''person'', ''car'', ''truck'', ''bus'', ''bicycle'', ''motorcycle''],
       last_event_time = Map.empty, min_event_interval = 5 \<rparr>"

text \<open>
  \<open>detections_by_class\<close>: a dict keeps its keys in insertion order; the list of a class
  is created with its first detection, so it is kept as that detection and the later ones.
\<close>

type_synonym class_group = "string \<times> detection_result \<times> detection_result list"

fun group_insert :: "detection_result \<Rightarrow> class_group list \<Rightarrow> class_group list" where
  "group_insert d [] = [(class_name d, d, [])]"
| "group_insert d ((k, d0, ds) # gs) =
     (if k = class_name d then (k, d0, ds @ [d]) # gs else (k, d0, ds) # group_insert d gs)"

definition group_by_class :: "detection_result list \<Rightarrow> class_group list" where
  "group_by_class detections = foldl (\<lambda>gs d. group_insert d gs) [] detections"

text \<open>\<open>max(xs, key=...)\<close> returns the first element with the largest key.\<close>

fun best_of :: "detection_result \<Rightarrow> detection_result list \<Rightarrow> detection_result" where
  "best_of b [] = b"
| "best_of b (d # ds) = best_of (if confidence b < confidence d then d else b) ds"

text \<open>The loop of \<open>_check_events\<close> over the classes of the batch.\<close>

fun check_classes ::
  "string \<Rightarrow> real \<Rightarrow> real \<Rightarrow> class_group list \<Rightarrow> (string \<rightharpoonup> real) \<Rightarrow> event list \<times> (string \<rightharpoonup> real)" where
  "check_classes camera_name current_time interval [] lt = ([], lt)"
| "check_classes camera_name current_time interval ((cname, d0, ds) # gs) lt =
     (let event_key = camera_name @ ''_'' @ cname;
          last_time = get_or (lt event_key) 0
      in if current_time - last_time < interval
         then check_classes camera_name current_time interval gs lt
         else
           (let best_detection = best_of d0 ds;
                ev = \<lparr>ev_type = Some cname, ev_confidence = Some (confidence best_detection),
                      ev_bbox = Some (bbox best_detection), ev_timestamp = Some current_time,
                      ev_camera_name = Some camera_name\<rparr>;
                (evs, lt') = check_classes camera_name current_time interval gs
                                 (lt(event_key \<mapsto> current_time))
            in (ev # evs, lt')))"

definition check_events ::
  "event_detector \<Rightarrow> detection_result list \<Rightarrow> metadata \<Rightarrow> real \<Rightarrow> event list \<times> event_detector" where
  "check_events s detections md now =
     (let current_time = get_or (md_timestamp md) now;
          camera_name = get_or (md_camera_name md) ''unknown'';
          (events, last') = check_classes camera_name current_time (min_event_interval s)
                              (group_by_class detections) (last_event_time s)
      in (events, s\<lparr>last_event_time := last'\<rparr>))"

text \<open>
  \<open>EventDetector.process_frame\<close>, without the drawing of the boxes on the frame: the
  filtered detections, the events, the timestamp and the camera name of the returned
  dict (\<open>None\<close> is the empty dict returned for a missing frame).
\<close>

record frame_report =
  fr_detections :: "detection_result list"
  fr_events :: "event list"
  fr_timestamp :: real
  fr_camera_name :: string

definition process_frame ::
  "event_detector \<Rightarrow> frame option \<Rightarrow> metadata \<Rightarrow> real \<Rightarrow> frame_report option \<times> event_detector \<times> log_line list" where
  "process_frame s fo md now =
     (case fo of
        None \<Rightarrow> (None, s, [])
      | Some f \<Rightarrow>
          (let (detections, lines) = detect (ed_detector s) (Some f) None None;
               filtered_detections =
                 filter (\<lambda>d. List.member (classes_of_interest s) (class_name d)
                            \<and> min_confidence s \<le> confidence d) detections;
               (events, s') = check_events s filtered_detections md now
           in (Some \<lparr>fr_detections = filtered_detections, fr_events = events,
                      fr_timestamp = get_or (md_timestamp md) 0,
                      fr_camera_name = get_or (md_camera_name md) ''unknown''\<rparr>, s', lines)))"

text \<open>The number of events of one type in a list of events.\<close>

definition count_type :: "string \<Rightarrow> event list \<Rightarrow> nat" where
  "count_type c evs = length (filter (\<lambda>e. ev_type e = Some c) evs)"

section \<open>core/camera.py: CameraStream and CameraManager\<close>

text \<open>A \<open>cv2.VideoCapture\<close> handle: what it was opened on and whether it is open.\<close>

record capture =
  source :: string
  is_open :: bool

definition release :: "capture \<Rightarrow> capture" where
  "release c = c\<lparr>is_open := False\<rparr>"

record camera_config =
  cfg_name :: string
  rtsp_url :: string
  cfg_width :: int
  cfg_height :: int
  cfg_fps :: int
  reconnect_interval :: real

text \<open>
  A subscriber callback is called with a copy of the frame and the metadata; it returns
  (\<open>None\<close>) or raises an exception.
\<close>

type_synonym callback = "frame \<Rightarrow> metadata \<Rightarrow> py_error option"

record camera_stream =
  cs_config :: camera_config
  cap :: "capture option"
  cs_frame :: "frame option"
  running :: bool
  has_thread :: bool
  callbacks :: "callback list"
  connected :: bool

definition CameraStream_init :: "camera_config \<Rightarrow> camera_stream" where
  "CameraStream_init cfg =
     \<lparr> cs_config = cfg, cap = None, cs_frame = None, running = False, has_thread = False,
       callbacks = [], connected = False \<rparr>"

definition add_callback :: "camera_stream \<Rightarrow> callback \<Rightarrow> camera_stream" where
  "add_callback s cb = s\<lparr>callbacks := callbacks s @ [cb]\<rparr>"

definition cap_is_open :: "camera_stream \<Rightarrow> bool" where
  "cap_is_open s = (case cap s of None \<Rightarrow> False | Some c \<Rightarrow> is_open c)"

text \<open>
  \<open>_connect\<close>: what the device answers is given from outside. An existing handle is released
  first; the new handle is open, or never opened, or opened and released after a failed
  test read; an exception leaves the old handle in place.
\<close>

datatype connect_outcome = Connected | NotOpened | NoTestFrame | ConnectRaised

definition connect :: "camera_stream \<Rightarrow> connect_outcome \<Rightarrow> camera_stream \<times> bool \<times> log_line list" where
  "connect s oc =
     (let url = rtsp_url (cs_config s);
          lines = (INFO, ''connecting to camera'')
                  # (if cap s = None then [] else [(INFO, ''releasing previous connection'')])
      in case oc of
           ConnectRaised \<Rightarrow>
             (s\<lparr>cap := map_option release (cap s)\<rparr>, False, lines @ [(ERROR, ''error connecting to camera'')])
         | NotOpened \<Rightarrow>
             (s\<lparr>cap := Some \<lparr>source = url, is_open = False\<rparr>\<rparr>, False,
              lines @ [(ERROR, ''could not open the camera'')])
         | NoTestFrame \<Rightarrow>
             (s\<lparr>cap := Some \<lparr>source = url, is_open = False\<rparr>\<rparr>, False,
              lines @ [(ERROR, ''camera opened but returned no valid frame'')])
         | Connected \<Rightarrow>
             (s\<lparr>cap := Some \<lparr>source = url, is_open = True\<rparr>, connected := True\<rparr>, True,
              lines @ [(INFO, ''connection established'')]))"

text \<open>
  \<open>_process_frame\<close>: the loop over the callbacks with its \<open>try\<close>/\<open>except\<close>. A delivery is
  the frame and metadata a callback was called with, and what the call did.
\<close>

type_synonym delivery = "frame \<times> metadata \<times> py_error option"

fun fan_out :: "callback list \<Rightarrow> frame \<Rightarrow> metadata \<Rightarrow> delivery list \<times> log_line list" where
  "fan_out [] f md = ([], [])"
| "fan_out (cb # cbs) f md =
     (case cb f md of
        None \<Rightarrow> (let (ds, lines) = fan_out cbs f md in ((f, md, None) # ds, lines))
      | Some e \<Rightarrow>
          (let (ds, lines) = fan_out cbs f md
           in ((f, md, Some e) # ds, (ERROR, ''error in callback'') # lines)))"

definition stream_process_frame ::
  "camera_stream \<Rightarrow> frame option \<Rightarrow> real \<Rightarrow> delivery list \<times> log_line list" where
  "stream_process_frame s fo now =
     (case fo of
        None \<Rightarrow> ([], [])
      | Some f \<Rightarrow>
          fan_out (callbacks s) f
            \<lparr>md_camera_name = Some (cfg_name (cs_config s)), md_timestamp = Some now,
             md_width = Some (fwidth f), md_height = Some (fheight f)\<rparr>)"

text \<open>The local variables of \<open>_run\<close>.\<close>

record run_locals =
  frame_count :: nat
  error_count :: nat
  last_log_time :: real
  last_reconnect_time :: real
  reconnect_attempts :: nat

definition run_locals_init :: "real \<Rightarrow> run_locals" where
  "run_locals_init t0 =
     \<lparr> frame_count = 0, error_count = 0, last_log_time = t0, last_reconnect_time = 0,
       reconnect_attempts = 0 \<rparr>"

definition max_reconnect_attempts :: nat where
  "max_reconnect_attempts = 5"

text \<open>
  What one iteration of the loop meets: the clock at its top, the answer of the device
  if the iteration reconnects, the result of \<open>cap.read()\<close> if it reads, and the clock
  when the frame is handed to the callbacks.
\<close>

datatype read_outcome = GotFrame frame | ReadFailed | ReadRaised py_error

record tick =
  tk_now :: real
  conn :: connect_outcome
  grab :: read_outcome
  cb_time :: real

text \<open>The \<open>except\<close> branch of the loop: a release once the counter is above 3.\<close>

definition on_exception ::
  "camera_stream \<Rightarrow> run_locals \<Rightarrow> camera_stream \<times> run_locals \<times> delivery list \<times> log_line list" where
  "on_exception s l =
     (let l1 = l\<lparr>error_count := error_count l + 1\<rparr>
      in if error_count l1 > 3
         then (s\<lparr>cap := map_option release (cap s), connected := False\<rparr>, l1, [],
               [(ERROR, ''exception while reading frame''),
                (ERROR, ''too many consecutive exceptions, reconnecting'')])
         else (s, l1, [], [(ERROR, ''exception while reading frame'')]))"

text \<open>
  The \<open>try\<close> block of the loop: the read, the periodic log (which clears both counters
  when more than 5 seconds passed since the last one), then the failed read with a
  release once the counter is above 5, or the captured frame.
\<close>

definition read_part ::
  "camera_stream \<Rightarrow> run_locals \<Rightarrow> tick \<Rightarrow> camera_stream \<times> run_locals \<times> delivery list \<times> log_line list" where
  "read_part s l t =
     (case cap s of
        None \<Rightarrow> on_exception s l
      | Some c \<Rightarrow>
          if \<not> is_open c
          then (s\<lparr>connected := False\<rparr>, l, [], [(WARNING, ''camera closed unexpectedly'')])
          else
            (case grab t of
               ReadRaised e \<Rightarrow> on_exception s l
             | ReadFailed \<Rightarrow>
                 (let periodic = (tk_now t - last_log_time l > 5);
                      l1 = (if periodic
                            then l\<lparr>frame_count := 0, error_count := 0, last_log_time := tk_now t\<rparr>
                            else l);
                      lines1 = (if periodic then [(INFO, ''frames captured and errors since last log'')] else []);
                      l2 = l1\<lparr>error_count := error_count l1 + 1\<rparr>
                  in if error_count l2 > 5
                     then (s\<lparr>cap := map_option release (cap s), connected := False\<rparr>, l2, [],
                           lines1 @ [(WARNING, ''failed to read frame''),
                                     (ERROR, ''too many consecutive failures, reconnecting'')])
                     else (s, l2, [], lines1 @ [(WARNING, ''failed to read frame'')]))
             | GotFrame f \<Rightarrow>
                 (let periodic = (tk_now t - last_log_time l > 5);
                      l1 = (if periodic
                            then l\<lparr>frame_count := 0, error_count := 0, last_log_time := tk_now t\<rparr>
                            else l);
                      lines1 = (if periodic then [(INFO, ''frames captured and errors since last log'')] else []);
                      l2 = l1\<lparr>frame_count := frame_count l1 + 1, error_count := 0\<rparr>;
                      s1 = s\<lparr>connected := True, cs_frame := Some f\<rparr>;
                      (ds, lines2) = stream_process_frame s1 (Some f) (cb_time t)
                  in (s1, l2, ds, lines1 @ lines2))))"

text \<open>One iteration of \<open>while self.running\<close>; a stream that is not running stays as it is.\<close>

definition run_iter ::
  "camera_stream \<Rightarrow> run_locals \<Rightarrow> tick \<Rightarrow> camera_stream \<times> run_locals \<times> delivery list \<times> log_line list" where
  "run_iter s l t =
     (if \<not> running s then (s, l, [], [])
      else if \<not> cap_is_open s
      then
        (let s1 = s\<lparr>connected := False\<rparr>
         in if tk_now t - last_reconnect_time l < reconnect_interval (cs_config s) then (s1, l, [], [])
            else
              (let l1 = l\<lparr>last_reconnect_time := tk_now t,
                         reconnect_attempts := reconnect_attempts l + 1\<rparr>;
                   lines1 = [(WARNING, ''camera is not open, reconnection attempt'')]
               in if reconnect_attempts l1 > max_reconnect_attempts
                  then (s1, l1\<lparr>reconnect_attempts := 0\<rparr>, [],
                        lines1 @ [(ERROR, ''maximum reconnection attempts exceeded'')])
                  else
                    (let (s2, ok, lines2) = connect s1 (conn t)
                     in if \<not> ok
                        then (s2, l1, [], lines1 @ lines2 @ [(ERROR, ''failed to reconnect'')])
                        else
                          (let (s3, l3, ds, lines3) =
                                 read_part s2 (l1\<lparr>reconnect_attempts := 0, error_count := 0\<rparr>) t
                           in (s3, l3, ds,
                               lines1 @ lines2 @ [(INFO, ''reconnected'')] @ lines3)))))
      else read_part s l t)"

fun run_loop :: "camera_stream \<times> run_locals \<Rightarrow> tick list \<Rightarrow> camera_stream \<times> run_locals" where
  "run_loop (s, l) [] = (s, l)"
| "run_loop (s, l) (t # ts) = (let (s', l', ds, lines) = run_iter s l t in run_loop (s', l') ts)"

definition stream_start :: "camera_stream \<Rightarrow> connect_outcome \<Rightarrow> camera_stream \<times> bool \<times> log_line list" where
  "stream_start s oc =
     (if running s then (s, True, [(WARNING, ''capture already running'')])
      else
        (let (s1, ok, lines) = connect s oc
         in if \<not> ok then (s1, False, lines)
            else (s1\<lparr>running := True, has_thread := True\<rparr>, True,
                  lines @ [(INFO, ''video capture started'')])))"

text \<open>
  \<open>CameraStream.stop\<close>: the stream as left, the handles \<open>release()\<close> was called on, and the
  lines logged.
\<close>

definition stream_stop :: "camera_stream \<Rightarrow> camera_stream \<times> capture list \<times> log_line list" where
  "stream_stop s =
     (if \<not> running s then (s, [], [])
      else (s\<lparr>running := False, cap := map_option release (cap s), connected := False\<rparr>,
            (case cap s of None \<Rightarrow> [] | Some c \<Rightarrow> [c]),
            [(INFO, ''stopping video capture'')]))"

record camera_manager =
  cameras :: "string \<rightharpoonup> camera_stream"

definition add_camera ::
  "camera_manager \<Rightarrow> string \<Rightarrow> string \<Rightarrow> string \<Rightarrow> camera_manager \<times> bool \<times> log_line list" where
  "add_camera m camera_id name url =
     (if cameras m camera_id \<noteq> None then (m, False, [(WARNING, ''camera already exists'')])
      else (m\<lparr>cameras := (cameras m)(camera_id \<mapsto>
                 CameraStream_init \<lparr>cfg_name = name, rtsp_url = url, cfg_width = 1280,
                                    cfg_height = 720, cfg_fps = 25, reconnect_interval = 5\<rparr>)\<rparr>,
            True, []))"

text \<open>
  \<open>remove_camera\<close>: the manager as left, the returned boolean, the handles \<open>release()\<close> was
  called on, and the lines logged. Reading \<open>camera.is_running\<close> raises AttributeError (a
  \<open>CameraStream\<close> has no such attribute), which the inner \<open>try\<close> catches and logs, so
  \<open>stop()\<close> is not called here.
\<close>

definition remove_camera ::
  "camera_manager \<Rightarrow> string \<Rightarrow> camera_manager \<times> bool \<times> capture list \<times> log_line list" where
  "remove_camera m camera_id =
     (case cameras m camera_id of
        None \<Rightarrow> (m, False, [], [(WARNING, ''attempt to remove a camera that does not exist'')])
      | Some camera \<Rightarrow>
          (m\<lparr>cameras := (cameras m)(camera_id := None)\<rparr>, True,
           (case cap camera of None \<Rightarrow> [] | Some c \<Rightarrow> [c]),
           [(INFO, ''starting removal of camera''), (ERROR, ''error stopping camera'')]
           @ (if callbacks camera \<noteq> [] then [(INFO, ''clearing callbacks'')] else [])
           @ (if cap camera \<noteq> None then [(INFO, ''releasing VideoCapture'')] else [])
           @ [(INFO, ''camera removed'')]))"

section \<open>api/realtime_detection.py: RTSPCamera and RealtimeSession\<close>

text \<open>
  The confidence of a live session is a Python float that comes from a request: a
  finite value (idealised as a real), an infinity, or NaN. Comparisons with NaN are
  false.
\<close>

datatype pyfloat = Num real | PosInf | NegInf | NaN

fun flt :: "pyfloat \<Rightarrow> pyfloat \<Rightarrow> bool" where
  "flt NaN b = False"
| "flt a NaN = False"
| "flt (Num x) (Num y) = (x < y)"
| "flt NegInf NegInf = False"
| "flt NegInf b = True"
| "flt a NegInf = False"
| "flt PosInf b = False"
| "flt a PosInf = True"

definition fle :: "pyfloat \<Rightarrow> pyfloat \<Rightarrow> bool" where
  "fle a b = (if a = NaN then False else if b = NaN then False else \<not> flt b a)"

text \<open>\<open>numpy.maximum\<close> and \<open>numpy.minimum\<close> return NaN when either argument is NaN.\<close>

definition np_maximum :: "pyfloat \<Rightarrow> pyfloat \<Rightarrow> pyfloat" where
  "np_maximum a b = (if a = NaN then NaN else if b = NaN then NaN else if flt a b then b else a)"

definition np_minimum :: "pyfloat \<Rightarrow> pyfloat \<Rightarrow> pyfloat" where
  "np_minimum a b = (if a = NaN then NaN else if b = NaN then NaN else if flt b a then b else a)"

record yolo_detector =
  yd_imgsz :: int
  yd_conf :: pyfloat
  yd_device :: string

record rtsp_camera =
  rc_camera_id :: string
  rc_rtsp_url :: string
  rc_cap :: "capture option"
  rc_running :: bool
  rc_thread :: bool
  rc_q :: "frame list"

text \<open>
  \<open>RTSPCamera.stop\<close>: the camera as left, the handles \<open>release()\<close> was called on, and the
  lines logged; an exception of \<open>release()\<close> is caught and logged as a warning.
\<close>

definition rtsp_stop :: "rtsp_camera \<Rightarrow> bool \<Rightarrow> rtsp_camera \<times> capture list \<times> log_line list" where
  "rtsp_stop c release_raises =
     (c\<lparr>rc_running := False, rc_q := [], rc_cap := None, rc_thread := False\<rparr>,
      (case rc_cap c of None \<Rightarrow> [] | Some h \<Rightarrow> [h]),
      (if rc_cap c \<noteq> None \<and> release_raises then [(WARNING, ''error releasing RTSP capture'')] else [])
      @ [(INFO, ''RTSP stopped'')])"

record realtime_session =
  rs_id :: string
  rs_camera :: rtsp_camera
  rs_detector :: yolo_detector
  rs_classes :: "string list option"
  rs_conf :: pyfloat
  rs_display_size :: "(int \<times> int) option"
  websockets :: "nat list"
  rs_active :: bool
  last_jpeg :: "nat list option"
  rs_fps :: real

definition session_stop ::
  "realtime_session \<Rightarrow> bool \<Rightarrow> realtime_session \<times> capture list \<times> log_line list" where
  "session_stop s release_raises =
     (let (cam, released, lines) = rtsp_stop (rs_camera s) release_raises
      in (s\<lparr>rs_active := False, last_jpeg := None, rs_camera := cam, websockets := []\<rparr>,
          released, lines @ [(INFO, ''session stopped'')]))"

text \<open>
  \<open>numpy.clip(x, lo, hi)\<close> is \<open>minimum(maximum(x, lo), hi)\<close>, so the clip of NaN is NaN;
  \<open>float(...)\<close> keeps the value.
\<close>

definition np_clip :: "pyfloat \<Rightarrow> pyfloat \<Rightarrow> pyfloat \<Rightarrow> pyfloat" where
  "np_clip x lo hi = np_minimum (np_maximum x lo) hi"

definition set_config ::
  "realtime_session \<Rightarrow> string list option \<Rightarrow> pyfloat option \<Rightarrow> realtime_session" where
  "set_config s classes conf =
     (let s1 = (case classes of None \<Rightarrow> s | Some cl \<Rightarrow> s\<lparr>rs_classes := Some cl\<rparr>)
      in case conf of
           None \<Rightarrow> s1
         | Some c \<Rightarrow>
             (let v = np_clip c (Num (5 / 100)) (Num (99 / 100))
              in s1\<lparr>rs_conf := v, rs_detector := (rs_detector s1)\<lparr>yd_conf := v\<rparr>\<rparr>))"

text \<open>
  A confidence clamped into [0.05, 0.99] as the specification words it: a value below
  0.05 becomes 0.05, a value above 0.99 becomes 0.99, any other value is kept.
\<close>

definition clamped_into_range :: "pyfloat \<Rightarrow> pyfloat" where
  "clamped_into_range c =
     (if flt c (Num (5 / 100)) then Num (5 / 100)
      else if flt (Num (99 / 100)) c then Num (99 / 100) else c)"

section \<open>Sample inputs and auxiliary predicates\<close>

definition frame_a :: frame where
  "frame_a = \<lparr>fheight = 1, fwidth = 1, pixels = [7]\<rparr>"

definition md_cam1 :: "real \<Rightarrow> metadata" where
  "md_cam1 t = \<lparr>md_camera_name = Some ''cam1'', md_timestamp = Some t,
               md_width = None, md_height = None\<rparr>"

text \<open>A recorder with one second of pre-event video at two frames per second.\<close>

definition small_recorder :: recorder where
  "small_recorder = VideoRecorder_init ''events'' 1 5 2 ''mp4v''"

definition three_calls :: "add_call list" where
  "three_calls = [(Some frame_a, md_cam1 1, 1), (Some frame_a, md_cam1 2, 2),
                  (Some frame_a, md_cam1 3, 3)]"

text \<open>
  The state kept between the steps of the recorder: a camera has at most one running
  recording thread, and while it has one its flag is set and its buffer exists.
\<close>

definition rec_inv :: "recorder \<times> world \<Rightarrow> bool" where
  "rec_inv st =
     (\<forall>c. jobs_of (snd st) c \<le> 1
          \<and> (jobs_of (snd st) c \<noteq> 0 \<longrightarrow>
                recording (fst st) c = Some True \<and> frame_buffer (fst st) c \<noteq> None))"

definition event_cam1 :: event where
  "event_cam1 = \<lparr>ev_type = Some ''person'', ev_confidence = Some (9 / 10), ev_bbox = Some [],
                 ev_timestamp = Some 1, ev_camera_name = Some ''cam1''\<rparr>"

definition one_frame_then_two_triggers :: "rec_action list" where
  "one_frame_then_two_triggers =
     [AddFrame (Some frame_a) (md_cam1 1) 1, Trigger event_cam1, Trigger event_cam1]"

definition env_ok :: job_env where
  "env_ok = \<lparr>clock = 2, stamp = Inr ''19700101_000001'', post_seen = [], fault = None\<rparr>"

definition env_metadata_fails :: job_env where
  "env_metadata_fails = env_ok\<lparr>fault := Some Metadata\<rparr>"

text \<open>The recorder of the samples after one frame of camera cam1 and one trigger.\<close>

definition recorder_busy :: "recorder \<times> world" where
  "recorder_busy = rec_run (small_recorder, world_init) (take 2 one_frame_then_two_triggers)"

text \<open>
  What the grouping of a batch gives: one group per class of the batch, each holding the
  detections of its class in batch order.
\<close>

definition groups_of :: "detection_result list \<Rightarrow> class_group list \<Rightarrow> bool" where
  "groups_of xs gs =
     (distinct (map fst gs) \<and> fst ` set gs = class_name ` set xs
      \<and> (\<forall>g \<in> set gs. fst (snd g) # snd (snd g) = filter (\<lambda>d. class_name d = fst g) xs))"

definition person_det :: "real \<Rightarrow> detection_result" where
  "person_det cf = \<lparr>class_id = 0, class_name = ''person'', confidence = cf,
                    bbox = [1 / 2, 1 / 2, 1 / 4, 1 / 4], frame_width = 640, frame_height = 480\<rparr>"

definition car_det :: "real \<Rightarrow> detection_result" where
  "car_det cf = \<lparr>class_id = 2, class_name = ''car'', confidence = cf,
                 bbox = [1 / 4, 1 / 4, 1 / 8, 1 / 8], frame_width = 640, frame_height = 480\<rparr>"

text \<open>An event detector as created, over a detector with no model loaded.\<close>

definition fresh_detector :: event_detector where
  "fresh_detector =
     EventDetector_init \<lparr>conf_threshold = 1 / 2, od_model = None, class_names = Map.empty\<rparr> (1 / 2)"

definition mixed_batch :: "detection_result list" where
  "mixed_batch = [person_det (7 / 10), car_det (6 / 10), person_det (9 / 10)]"

text \<open>Three detectors: no model loaded, a model that sees nothing, a model that raises.\<close>

definition no_model_detector :: object_detector where
  "no_model_detector = \<lparr>conf_threshold = 1 / 2, od_model = None, class_names = Map.empty\<rparr>"

definition blind_detector :: object_detector where
  "blind_detector = no_model_detector\<lparr>od_model := Some (\<lambda>f c. Inr [])\<rparr>"

definition broken_detector :: object_detector where
  "broken_detector = no_model_detector\<lparr>od_model := Some (\<lambda>f c. Inl (OtherError ''inference''))\<rparr>"

definition open_capture :: capture where
  "open_capture = \<lparr>source = ''rtsp://cam1'', is_open = True\<rparr>"

definition quiet_cb :: callback where
  "quiet_cb f md = None"

definition raising_cb :: callback where
  "raising_cb f md = Some (OtherError ''subscriber'')"

text \<open>A started stream with three subscribers, the second of which raises.\<close>

definition streaming_cam :: camera_stream where
  "streaming_cam =
     \<lparr> cs_config = \<lparr>cfg_name = ''cam1'', rtsp_url = ''rtsp://cam1'', cfg_width = 1280,
                     cfg_height = 720, cfg_fps = 25, reconnect_interval = 5\<rparr>,
       cap = Some open_capture, cs_frame = None, running = True, has_thread = True,
       callbacks = [quiet_cb, raising_cb, quiet_cb], connected = True \<rparr>"

definition failing_tick :: "real \<Rightarrow> tick" where
  "failing_tick t = \<lparr>tk_now = t, conn = Connected, grab = ReadFailed, cb_time = t\<rparr>"

definition raising_tick :: "real \<Rightarrow> tick" where
  "raising_tick t = \<lparr>tk_now = t, conn = Connected, grab = ReadRaised (OtherError ''read''), cb_time = t\<rparr>"

definition frame_tick :: "real \<Rightarrow> tick" where
  "frame_tick t = \<lparr>tk_now = t, conn = Connected, grab = GotFrame frame_a, cb_time = t\<rparr>"

definition live_session :: realtime_session where
  "live_session =
     \<lparr> rs_id = ''cam1_1'',
       rs_camera = \<lparr>rc_camera_id = ''cam1'', rc_rtsp_url = ''rtsp://cam1'',
                    rc_cap = Some open_capture, rc_running = True, rc_thread = True,
                    rc_q = [frame_a]\<rparr>,
       rs_detector = \<lparr>yd_imgsz = 640, yd_conf = Num (1 / 2), yd_device = ''cpu''\<rparr>,
       rs_classes = None, rs_conf = Num (1 / 2), rs_display_size = Some (640, 360),
       websockets = [1, 2], rs_active = True, last_jpeg = Some [255, 216], rs_fps = 0 \<rparr>"

definition one_camera :: camera_manager where
  "one_camera = \<lparr>cameras = Map.empty(''cam1'' \<mapsto> streaming_cam)\<rparr>"

text \<open>
  A tick whose read fails with no periodic log in the same iteration, and a tick whose
  read raises.
\<close>

definition read_fails :: "run_locals \<Rightarrow> tick \<Rightarrow> bool" where
  "read_fails l t = (grab t = ReadFailed \<and> \<not> tk_now t - last_log_time l > 5)"

definition read_raises :: "tick \<Rightarrow> bool" where
  "read_raises t = (case grab t of ReadRaised e \<Rightarrow> True | GotFrame f \<Rightarrow> False | ReadFailed \<Rightarrow> False)"

text \<open>The metadata \<open>_process_frame\<close> builds for a frame.\<close>

definition frame_metadata :: "camera_stream \<Rightarrow> frame \<Rightarrow> real \<Rightarrow> metadata" where
  "frame_metadata s f tm =
     \<lparr>md_camera_name = Some (cfg_name (cs_config s)), md_timestamp = Some tm,
      md_width = Some (fwidth f), md_height = Some (fheight f)\<rparr>"

definition six_failures :: "tick list" where
  "six_failures = map failing_tick [1 / 10, 2 / 10, 3 / 10, 4 / 10, 5 / 10, 6 / 10]"

definition four_exceptions :: "tick list" where
  "four_exceptions = map raising_tick [1 / 10, 2 / 10, 3 / 10, 4 / 10]"

text \<open>Twelve failed reads, one every second and a half.\<close>

definition slow_failures :: "tick list" where
  "slow_failures = map failing_tick [3 / 2, 3, 9 / 2, 6, 15 / 2, 9, 21 / 2, 12, 27 / 2, 15, 33 / 2, 18]"

section \<open>Frame buffer\<close>

lemma limit_buffer_drop:
  "0 \<le> m \<Longrightarrow> limit_buffer m buf = (drop (length buf - nat m) buf, None)"
proof (induction buf)
  case Nil
  then show ?case by simp
next
  case (Cons x xs)
  show ?case
  proof (cases "int (length (x # xs)) > m")
    case True
    then have "length (x # xs) - nat m = Suc (length xs - nat m)"
      using Cons.prems by auto
    with True Cons show ?thesis by simp
  next
    case False
    then have "length (x # xs) - nat m = 0" by auto
    with False show ?thesis by simp
  qed
qed

lemma buffer_of_append_frame:
  "buffer_of (append_frame r f md now) c =
     (if c = get_or (md_camera_name md) ''unknown''
      then buffer_of r c @ [\<lparr>fd_frame = f, fd_timestamp = get_or (md_timestamp md) now\<rparr>]
      else buffer_of r c)"
  by (simp add: append_frame_def buffer_of_def get_or_def Let_def)

lemma max_buffer_frames_append_frame:
  "max_buffer_frames (append_frame r f md now) = max_buffer_frames r"
  by (simp add: append_frame_def Let_def)

lemma add_frame_skip:
  "fo = None \<or> frame_size (the fo) = 0 \<Longrightarrow> add_frame r fo md now = (r, None)"
  by (auto simp: add_frame_def split: option.splits)

lemma add_frame_some:
  assumes "0 \<le> max_buffer_frames r" and "frame_size f \<noteq> 0"
  shows "snd (add_frame r (Some f) md now) = None"
    and "max_buffer_frames (fst (add_frame r (Some f) md now)) = max_buffer_frames r"
    and "buffer_of (fst (add_frame r (Some f) md now)) c =
           (if c = get_or (md_camera_name md) ''unknown''
            then drop (Suc (length (buffer_of r c)) - nat (max_buffer_frames r))
                   (buffer_of r c @ [\<lparr>fd_frame = f, fd_timestamp = get_or (md_timestamp md) now\<rparr>])
            else buffer_of r c)"
proof -
  let ?cam = "get_or (md_camera_name md) ''unknown''"
  let ?r1 = "append_frame r f md now"
  have lim: "limit_buffer (max_buffer_frames ?r1) (buffer_of ?r1 ?cam) =
               (drop (length (buffer_of ?r1 ?cam) - nat (max_buffer_frames r)) (buffer_of ?r1 ?cam), None)"
    using assms(1) by (simp add: limit_buffer_drop max_buffer_frames_append_frame)
  have eq: "add_frame r (Some f) md now =
              (?r1\<lparr>frame_buffer := (frame_buffer ?r1)(?cam \<mapsto>
                 drop (length (buffer_of ?r1 ?cam) - nat (max_buffer_frames r)) (buffer_of ?r1 ?cam))\<rparr>, None)"
    using assms(2) lim by (simp add: add_frame_def Let_def)
  show "snd (add_frame r (Some f) md now) = None" by (simp add: eq)
  show "max_buffer_frames (fst (add_frame r (Some f) md now)) = max_buffer_frames r"
    by (simp add: eq max_buffer_frames_append_frame)
  show "buffer_of (fst (add_frame r (Some f) md now)) c =
           (if c = ?cam
            then drop (Suc (length (buffer_of r c)) - nat (max_buffer_frames r))
                   (buffer_of r c @ [\<lparr>fd_frame = f, fd_timestamp = get_or (md_timestamp md) now\<rparr>])
            else buffer_of r c)"
  proof (cases "c = ?cam")
    case True
    have "buffer_of (fst (add_frame r (Some f) md now)) ?cam =
            drop (length (buffer_of ?r1 ?cam) - nat (max_buffer_frames r)) (buffer_of ?r1 ?cam)"
      by (simp add: eq buffer_of_def get_or_def)
    then show ?thesis using True by (simp add: buffer_of_append_frame)
  next
    case False
    have "buffer_of (fst (add_frame r (Some f) md now)) c = buffer_of ?r1 c"
      using False by (simp add: eq buffer_of_def)
    then show ?thesis using False by (simp add: buffer_of_append_frame)
  qed
qed

lemma drop_window_step:
  assumes "length b \<le> n"
  shows "drop (length (drop (Suc (length b) - n) (b @ [e]) @ rest) - n)
           (drop (Suc (length b) - n) (b @ [e]) @ rest)
         = drop (length (b @ e # rest) - n) (b @ e # rest)"
proof (cases "length b < n")
  case True
  then have "Suc (length b) - n = 0" by simp
  then show ?thesis by simp
next
  case False
  with assms have len: "length b = n" by simp
  then have one: "Suc (length b) - n = Suc 0" by simp
  define X where "X = b @ e # rest"
  have a: "drop (Suc 0) (b @ [e]) @ rest = drop (Suc 0) X"
    unfolding X_def by (cases b) simp_all
  have lx: "length X = Suc (n + length rest)" unfolding X_def using len by simp
  have b: "length (drop (Suc 0) X) - n = length rest"
    using lx by simp
  have c: "length X - n = Suc (length rest)"
    using lx by simp
  have "drop (length rest) (drop (Suc 0) X) = drop (Suc (length rest)) X"
    by (simp only: drop_drop) simp
  then show ?thesis
    unfolding one a b X_def[symmetric] c .
qed

lemma window_length_step:
  "length (b::'a list) \<le> n \<Longrightarrow> length (drop (Suc (length b) - n) (b @ [e])) \<le> n"
  by (simp only: length_drop length_append list.size)

lemma add_frames_window:
  assumes "0 \<le> max_buffer_frames r" and "length (buffer_of r c) \<le> nat (max_buffer_frames r)"
  shows "max_buffer_frames (add_frames r calls) = max_buffer_frames r
         \<and> buffer_of (add_frames r calls) c =
             drop (length (buffer_of r c @ appended c calls) - nat (max_buffer_frames r))
               (buffer_of r c @ appended c calls)"
  using assms
proof (induction calls arbitrary: r)
  case Nil
  then show ?case by simp
next
  case (Cons call calls)
  obtain fo md now where call: "call = (fo, md, now)" by (cases call) auto
  show ?case
  proof (cases "fo = None \<or> frame_size (the fo) = 0")
    case True
    then have "add_frame r fo md now = (r, None)" by (rule add_frame_skip)
    moreover have "appended c (call # calls) = appended c calls"
      using True call by (auto split: option.splits)
    ultimately show ?thesis using Cons call by simp
  next
    case False
    then obtain f where fo: "fo = Some f" and nz: "frame_size f \<noteq> 0" by auto
    let ?r1 = "fst (add_frame r (Some f) md now)"
    let ?e = "\<lparr>fd_frame = f, fd_timestamp = get_or (md_timestamp md) now\<rparr>"
    have cap1: "max_buffer_frames ?r1 = max_buffer_frames r"
      using Cons.prems(1) nz by (rule add_frame_some(2))
    have buf1: "buffer_of ?r1 c =
           (if c = get_or (md_camera_name md) ''unknown''
            then drop (Suc (length (buffer_of r c)) - nat (max_buffer_frames r)) (buffer_of r c @ [?e])
            else buffer_of r c)"
      using Cons.prems(1) nz by (rule add_frame_some(3))
    have len1: "length (buffer_of ?r1 c) \<le> nat (max_buffer_frames ?r1)"
    proof (cases "c = get_or (md_camera_name md) ''unknown''")
      case True
      have "length (drop (Suc (length (buffer_of r c)) - nat (max_buffer_frames r))
                     (buffer_of r c @ [?e])) \<le> nat (max_buffer_frames r)"
        using Cons.prems(2) by (rule window_length_step)
      then show ?thesis unfolding cap1 buf1 using True by (simp only: simp_thms if_True)
    next
      case False
      show ?thesis unfolding cap1 buf1 using False Cons.prems(2) by (simp only: simp_thms if_False)
    qed
    have ih: "max_buffer_frames (add_frames ?r1 calls) = max_buffer_frames ?r1
         \<and> buffer_of (add_frames ?r1 calls) c =
             drop (length (buffer_of ?r1 c @ appended c calls) - nat (max_buffer_frames ?r1))
               (buffer_of ?r1 c @ appended c calls)"
      using Cons.IH [of ?r1] Cons.prems(1) len1 cap1 by simp
    have step: "add_frames r (call # calls) = add_frames ?r1 calls"
      by (simp add: call fo)
    let ?n = "nat (max_buffer_frames r)"
    let ?b = "buffer_of r c"
    let ?rest = "appended c calls"
    have ih1: "max_buffer_frames (add_frames ?r1 calls) = max_buffer_frames r"
      using ih by (simp only: cap1)
    have ih2: "buffer_of (add_frames ?r1 calls) c =
                 drop (length (buffer_of ?r1 c @ ?rest) - ?n) (buffer_of ?r1 c @ ?rest)"
      using ih by (simp only: cap1)
    show ?thesis
    proof (cases "c = get_or (md_camera_name md) ''unknown''")
      case True
      then have app: "appended c (call # calls) = ?e # ?rest"
        using call fo nz by simp
      have b1: "buffer_of ?r1 c = drop (Suc (length ?b) - ?n) (?b @ [?e])"
        unfolding buf1 using True by (simp only: simp_thms if_True)
      have "buffer_of (add_frames r (call # calls)) c = buffer_of (add_frames ?r1 calls) c"
        by (simp only: step)
      also have "\<dots> = drop (length (drop (Suc (length ?b) - ?n) (?b @ [?e]) @ ?rest) - ?n)
                          (drop (Suc (length ?b) - ?n) (?b @ [?e]) @ ?rest)"
        by (simp only: ih2 b1)
      also have "\<dots> = drop (length (?b @ ?e # ?rest) - ?n) (?b @ ?e # ?rest)"
        using Cons.prems(2) by (rule drop_window_step)
      also have "\<dots> = drop (length (?b @ appended c (call # calls)) - ?n)
                          (?b @ appended c (call # calls))"
        by (simp only: app)
      finally show ?thesis using ih1 by (simp only: step simp_thms)
    next
      case False
      then have app: "appended c (call # calls) = ?rest"
        using call fo by simp
      have b1: "buffer_of ?r1 c = ?b"
        unfolding buf1 using False by (simp only: simp_thms if_False)
      have "buffer_of (add_frames r (call # calls)) c =
              drop (length (?b @ appended c (call # calls)) - ?n) (?b @ appended c (call # calls))"
        by (simp only: step ih2 b1 app)
      then show ?thesis using ih1 by (simp only: step simp_thms)
    qed
  qed
qed

text \<open>
  C2 (amended). A recorder is created with a non-negative capacity
  \<open>int(pre_event_seconds * fps)\<close>. After any sequence of \<open>add_frame\<close> calls the buffer of a
  camera holds the most recent entries appended for it, in arrival order, the oldest
  ones evicted first; its size is the minimum of the number appended and the capacity;
  it is within the capacity after every call of the sequence; no call raises. Inside a
  call the entry is appended first and the eviction follows, so the list holds at most
  capacity + 1 entries before the eviction.
\<close>

theorem frame_buffer_after_calls:
  assumes "r0 = VideoRecorder_init dir pre post fps_arg codec_arg"
    and "0 \<le> max_buffer_frames r0"
  shows "max_buffer_frames r0 = py_int (pre * real_of_int fps_arg)
       \<and> buffer_of (add_frames r0 calls) c =
           drop (length (appended c calls) - nat (max_buffer_frames r0)) (appended c calls)
       \<and> int (length (buffer_of (add_frames r0 calls) c)) =
           min (int (length (appended c calls))) (max_buffer_frames r0)
       \<and> (\<forall>k. int (length (buffer_of (add_frames r0 (take k calls)) c)) \<le> max_buffer_frames r0)
       \<and> (\<forall>f md tm. frame_size f \<noteq> 0 \<longrightarrow>
             snd (add_frame (add_frames r0 calls) (Some f) md tm) = None
             \<and> int (length (buffer_of (append_frame (add_frames r0 calls) f md tm) c))
                 \<le> max_buffer_frames r0 + 1)"
proof -
  have empty: "buffer_of r0 c = []" for c
    by (simp add: assms(1) VideoRecorder_init_def buffer_of_def get_or_def)
  have window: "max_buffer_frames (add_frames r0 cs) = max_buffer_frames r0
         \<and> buffer_of (add_frames r0 cs) c =
             drop (length (appended c cs) - nat (max_buffer_frames r0)) (appended c cs)" for cs
    using add_frames_window [of r0 c cs] assms(2) by (simp add: empty)
  have len: "int (length (buffer_of (add_frames r0 cs) c)) =
               min (int (length (appended c cs))) (max_buffer_frames r0)" for cs
    using assms(2) by (simp add: window)
  have cap: "max_buffer_frames r0 = py_int (pre * real_of_int fps_arg)"
    by (simp add: assms(1) VideoRecorder_init_def)
  have prefix: "int (length (buffer_of (add_frames r0 (take k calls)) c)) \<le> max_buffer_frames r0" for k
    by (simp only: len)
  have inside: "snd (add_frame (add_frames r0 calls) (Some f) md tm) = None
             \<and> int (length (buffer_of (append_frame (add_frames r0 calls) f md tm) c))
                 \<le> max_buffer_frames r0 + 1" if nz: "frame_size f \<noteq> 0" for f md tm
  proof -
    have "0 \<le> max_buffer_frames (add_frames r0 calls)"
      using window [of calls] assms(2) by simp
    then have "snd (add_frame (add_frames r0 calls) (Some f) md tm) = None"
      using nz by (rule add_frame_some(1))
    moreover have "int (length (buffer_of (append_frame (add_frames r0 calls) f md tm) c))
                 \<le> max_buffer_frames r0 + 1"
      using prefix [of "length calls"] by (auto simp: buffer_of_append_frame)
    ultimately show ?thesis by simp
  qed
  show ?thesis
    using cap window [of calls] len [of calls] prefix inside by blast
qed

theorem frame_buffer_after_calls_witness:
  "0 \<le> max_buffer_frames small_recorder
   \<and> max_buffer_frames small_recorder = 2
   \<and> buffer_of (add_frames small_recorder three_calls) ''cam1'' =
       [\<lparr>fd_frame = frame_a, fd_timestamp = 2\<rparr>, \<lparr>fd_frame = frame_a, fd_timestamp = 3\<rparr>]
   \<and> int (length (buffer_of (add_frames small_recorder three_calls) ''cam1'')) = min 3 2"
proof -
  have cap: "max_buffer_frames small_recorder = 2"
    by (simp add: small_recorder_def VideoRecorder_init_def py_int_def)
  have app: "appended ''cam1'' three_calls =
      [\<lparr>fd_frame = frame_a, fd_timestamp = 1\<rparr>, \<lparr>fd_frame = frame_a, fd_timestamp = 2\<rparr>,
       \<lparr>fd_frame = frame_a, fd_timestamp = 3\<rparr>]"
    by (simp add: three_calls_def md_cam1_def frame_a_def frame_size_def get_or_def)
  have h: "0 \<le> max_buffer_frames small_recorder" by (simp add: cap)
  show ?thesis
    using frame_buffer_after_calls [OF small_recorder_def h, of three_calls "''cam1''"]
    by (simp add: cap app)
qed

text \<open>
  C2 as stated fails inside a call: with capacity 2 and two entries buffered, the list
  holds three entries after the append of \<open>add_frame\<close> and before its eviction loop.
\<close>

theorem frame_buffer_exceeds_capacity_inside_call:
  "max_buffer_frames small_recorder = 2
   \<and> length (buffer_of (add_frames small_recorder (take 2 three_calls)) ''cam1'') = 2
   \<and> length (buffer_of (append_frame (add_frames small_recorder (take 2 three_calls))
                frame_a (md_cam1 3) 3) ''cam1'') = 3"
  by (simp add: small_recorder_def VideoRecorder_init_def py_int_def three_calls_def md_cam1_def
      frame_a_def frame_size_def get_or_def add_frame_def append_frame_def buffer_of_def Let_def)

section \<open>Recording jobs\<close>

lemma filter_member_length: "x \<in> set xs \<Longrightarrow> P x \<Longrightarrow> length (filter P xs) \<noteq> 0"
  by (auto simp: filter_empty_conv)

lemma filter_remove1_length:
  "x \<in> set xs \<Longrightarrow>
   length (filter P (remove1 x xs)) = (if P x then length (filter P xs) - 1 else length (filter P xs))"
proof (induction xs)
  case Nil
  then show ?case by simp
next
  case (Cons a xs)
  show ?case
  proof (cases "x = a")
    case True
    then show ?thesis by simp
  next
    case False
    then have mem: "x \<in> set xs" using Cons.prems by simp
    then have "P x \<Longrightarrow> length (filter P xs) \<noteq> 0" by (rule filter_member_length)
    then show ?thesis using False Cons.IH [OF mem] by auto
  qed
qed

lemma add_frame_keeps_flag:
  assumes "frame_buffer r c \<noteq> None"
  shows "recording (fst (add_frame r fo md tm)) c = recording r c
         \<and> frame_buffer (fst (add_frame r fo md tm)) c \<noteq> None"
  using assms
  by (auto simp: add_frame_def append_frame_def Let_def split: option.splits prod.splits)

lemma rec_inv_add_frame:
  assumes "rec_inv (r, w)"
  shows "rec_inv (fst (add_frame r fo md tm), w)"
  unfolding rec_inv_def
proof (intro allI conjI impI)
  fix c
  show "jobs_of (snd (fst (add_frame r fo md tm), w)) c \<le> 1"
    using assms by (simp add: rec_inv_def)
next
  fix c
  assume "jobs_of (snd (fst (add_frame r fo md tm), w)) c \<noteq> 0"
  then have "recording r c = Some True \<and> frame_buffer r c \<noteq> None"
    using assms by (simp add: rec_inv_def)
  then show "recording (fst (fst (add_frame r fo md tm), w)) c = Some True"
    and "frame_buffer (fst (fst (add_frame r fo md tm), w)) c \<noteq> None"
    using add_frame_keeps_flag [of r c fo md tm] by simp_all
qed

lemma rec_inv_start_recording:
  assumes "rec_inv (r, w)"
  shows "rec_inv (start_recording r w ev)"
proof -
  let ?cam = "get_or (ev_camera_name ev) ''unknown''"
  show ?thesis
  proof (cases "get_or (recording r ?cam) False \<or> frame_buffer r ?cam = None \<or> buffer_of r ?cam = []")
    case True
    then have "fst (start_recording r w ev) = r"
      and "running_jobs (snd (start_recording r w ev)) = running_jobs w"
      by (auto simp: start_recording_def Let_def)
    then show ?thesis using assms by (simp add: rec_inv_def jobs_of_def)
  next
    case False
    then have none: "jobs_of w ?cam = 0"
      using assms by (auto simp: rec_inv_def get_or_def)
    have eq: "start_recording r w ev =
       (r\<lparr>recording := (recording r)(?cam \<mapsto> True),
          recording_threads := (recording_threads r)(?cam \<mapsto> (?cam, ev))\<rparr>,
        w\<lparr>running_jobs := running_jobs w @ [(?cam, ev)],
          logged := logged w @ [(INFO, ''starting recording for event on camera '' @ ?cam)]\<rparr>)"
      using False by (auto simp: start_recording_def Let_def)
    show ?thesis
      unfolding eq rec_inv_def
      using assms none False by (auto simp: rec_inv_def jobs_of_def)
  qed
qed

lemma rec_inv_record_event:
  assumes "rec_inv (r, w)" and "(c, ev) \<in> set (running_jobs w)"
  shows "rec_inv (record_event r w c ev env)"
proof -
  have jobs: "jobs_of (snd (record_event r w c ev env)) c' =
                (if c' = c then jobs_of w c' - 1 else jobs_of w c')" for c'
    using filter_remove1_length [OF assms(2), of "\<lambda>j. fst j = c'"]
    by (auto simp: record_event_def jobs_of_def Let_def split: prod.splits)
  have flag: "recording (fst (record_event r w c ev env)) c' =
                (if c' = c then Some False else recording r c')" for c'
    by (simp add: record_event_def Let_def split: prod.splits)
  have buf: "frame_buffer (fst (record_event r w c ev env)) = frame_buffer r"
    by (simp add: record_event_def Let_def split: prod.splits)
  show ?thesis
    unfolding rec_inv_def
  proof (intro allI)
    fix c'
    have "jobs_of w c' \<le> 1"
      and "jobs_of w c' \<noteq> 0 \<longrightarrow> recording r c' = Some True \<and> frame_buffer r c' \<noteq> None"
      using assms(1) by (simp_all add: rec_inv_def)
    then show "jobs_of (snd (record_event r w c ev env)) c' \<le> 1 \<and>
          (jobs_of (snd (record_event r w c ev env)) c' \<noteq> 0 \<longrightarrow>
           recording (fst (record_event r w c ev env)) c' = Some True \<and>
           frame_buffer (fst (record_event r w c ev env)) c' \<noteq> None)"
      by (auto simp: jobs flag buf)
  qed
qed

lemma rec_inv_step:
  assumes "rec_inv st"
  shows "rec_inv (rec_step st a)"
proof -
  obtain r w where st: "st = (r, w)" by (cases st) auto
  show ?thesis
  proof (cases a)
    case (AddFrame fo md tm)
    then show ?thesis using assms st by (simp add: rec_inv_add_frame)
  next
    case (Trigger ev)
    then show ?thesis using assms st by (simp add: rec_inv_start_recording)
  next
    case (JobEnds i env)
    show ?thesis
    proof (cases "i < length (running_jobs w)")
      case True
      then have "(fst (running_jobs w ! i), snd (running_jobs w ! i)) \<in> set (running_jobs w)"
        by simp
      then show ?thesis using assms st JobEnds True by (simp add: rec_inv_record_event)
    next
      case False
      then show ?thesis using assms st JobEnds by simp
    qed
  qed
qed

lemma rec_inv_run: "rec_inv st \<Longrightarrow> rec_inv (rec_run st acts)"
  unfolding rec_run_def
  by (induction acts arbitrary: st) (simp_all add: rec_inv_step)

lemma rec_inv_init: "rec_inv (VideoRecorder_init dir pre post fps_arg codec_arg, world_init)"
  by (simp add: rec_inv_def jobs_of_def world_init_def)

text \<open>
  C1. Frames arriving, triggers and recording threads ending are taken as whole steps
  of a recorder that starts empty. After any sequence of steps every camera has at most
  one running recording thread; and a trigger for a camera whose recording flag is set
  starts nothing: the recorder object, the running threads and the files are as before,
  only a line is logged.
\<close>

theorem at_most_one_recording_job:
  assumes "rec_run (VideoRecorder_init dir pre post fps_arg codec_arg, world_init) acts = (r, w)"
  shows "jobs_of w c \<le> 1
       \<and> (is_recording r (get_or (ev_camera_name ev) ''unknown'') \<longrightarrow>
            start_recording r w ev =
              (r, w\<lparr>logged := logged w @
                      [(INFO, ''recording already in progress for camera ''
                              @ get_or (ev_camera_name ev) ''unknown'')]\<rparr>))"
proof -
  have "rec_inv (r, w)"
    using rec_inv_run [OF rec_inv_init, of dir pre post fps_arg codec_arg acts] assms by simp
  then have "jobs_of w c \<le> 1" by (simp add: rec_inv_def)
  then show ?thesis by (simp add: start_recording_def is_recording_def Let_def)
qed

theorem at_most_one_recording_job_witness:
  "is_recording (fst (rec_run (small_recorder, world_init) one_frame_then_two_triggers)) ''cam1''
   \<and> jobs_of (snd (rec_run (small_recorder, world_init) one_frame_then_two_triggers)) ''cam1'' \<le> 1
   \<and> jobs_of (snd (rec_run (small_recorder, world_init) (take 2 one_frame_then_two_triggers))) ''cam1'' = 1
   \<and> start_recording (fst recorder_busy) (snd recorder_busy) event_cam1 =
       (fst recorder_busy,
        (snd recorder_busy)\<lparr>logged := logged (snd recorder_busy) @
           [(INFO, ''recording already in progress for camera cam1'')]\<rparr>)"
proof -
  have busy: "is_recording (fst recorder_busy) ''cam1''"
    by (simp add: recorder_busy_def rec_run_def one_frame_then_two_triggers_def small_recorder_def
        VideoRecorder_init_def py_int_def world_init_def md_cam1_def frame_a_def frame_size_def
        get_or_def add_frame_def append_frame_def buffer_of_def start_recording_def event_cam1_def
        is_recording_def Let_def)
  have cam: "get_or (ev_camera_name event_cam1) ''unknown'' = ''cam1''"
    by (simp add: event_cam1_def get_or_def)
  have run: "rec_run (VideoRecorder_init ''events'' 1 5 2 ''mp4v'', world_init)
               (take 2 one_frame_then_two_triggers) = (fst recorder_busy, snd recorder_busy)"
    by (simp add: recorder_busy_def small_recorder_def)
  have drop: "start_recording (fst recorder_busy) (snd recorder_busy) event_cam1 =
       (fst recorder_busy,
        (snd recorder_busy)\<lparr>logged := logged (snd recorder_busy) @
           [(INFO, ''recording already in progress for camera cam1'')]\<rparr>)"
    using at_most_one_recording_job [OF run, of "''cam1''" event_cam1] busy by (simp add: cam)
  have trig: "rec_step st (Trigger event_cam1) = start_recording (fst st) (snd st) event_cam1" for st
    by (cases st) simp
  have all: "rec_run (small_recorder, world_init) one_frame_then_two_triggers =
               start_recording (fst recorder_busy) (snd recorder_busy) event_cam1"
    by (simp add: recorder_busy_def rec_run_def one_frame_then_two_triggers_def trig)
  have one: "jobs_of (snd recorder_busy) ''cam1'' = 1"
    by (simp add: recorder_busy_def rec_run_def one_frame_then_two_triggers_def small_recorder_def
        VideoRecorder_init_def py_int_def world_init_def md_cam1_def frame_a_def frame_size_def
        get_or_def add_frame_def append_frame_def buffer_of_def start_recording_def event_cam1_def
        jobs_of_def Let_def)
  show ?thesis
    using busy drop one by (simp add: all jobs_of_def recorder_busy_def)
qed

text \<open>
  C9. A trigger for a camera whose frame buffer is absent or empty returns with the
  recorder object unchanged (so its recording flag is not set by the call), no
  recording thread started and no file written; only a line is logged.
\<close>

theorem start_recording_without_frames:
  assumes "frame_buffer r (get_or (ev_camera_name ev) ''unknown'') = None
           \<or> frame_buffer r (get_or (ev_camera_name ev) ''unknown'') = Some []"
  shows "fst (start_recording r w ev) = r
       \<and> running_jobs (snd (start_recording r w ev)) = running_jobs w
       \<and> files (snd (start_recording r w ev)) = files w
       \<and> recording (fst (start_recording r w ev)) = recording r"
  using assms by (auto simp: start_recording_def buffer_of_def get_or_def Let_def)

theorem start_recording_without_frames_witness:
  "frame_buffer small_recorder (get_or (ev_camera_name event_cam1) ''unknown'') = None
   \<and> fst (start_recording small_recorder world_init event_cam1) = small_recorder
   \<and> running_jobs (snd (start_recording small_recorder world_init event_cam1)) = []
   \<and> files (snd (start_recording small_recorder world_init event_cam1)) = []
   \<and> recording (fst (start_recording small_recorder world_init event_cam1)) ''cam1'' = None"
proof -
  have h: "frame_buffer small_recorder (get_or (ev_camera_name event_cam1) ''unknown'') = None"
    by (simp add: small_recorder_def VideoRecorder_init_def)
  then have h': "frame_buffer small_recorder (get_or (ev_camera_name event_cam1) ''unknown'') = None
           \<or> frame_buffer small_recorder (get_or (ev_camera_name event_cam1) ''unknown'') = Some []"
    by simp
  have "recording small_recorder ''cam1'' = None"
    by (simp add: small_recorder_def VideoRecorder_init_def)
  then show ?thesis
    using h start_recording_without_frames [OF h', of world_init]
    by (simp add: world_init_def)
qed

text \<open>
  C5 (amended). Whatever happens inside a recording thread, when it ends the recording
  flag of its camera is False and the buffers are untouched. A fault at any step of the
  writing or finalisation leaves the \<open>try\<close> block as an exception, and the last line
  logged is then the error line. A later trigger for the same camera, whose buffer is
  not empty, starts a new recording thread. The recorder keeps no status of the job.
\<close>

theorem record_event_clears_flag:
  "recording (fst (record_event r w c ev env)) c = Some False
   \<and> frame_buffer (fst (record_event r w c ev env)) = frame_buffer r
   \<and> (fault env \<noteq> None \<and> buffer_of r c \<noteq> [] \<and> stamp env = Inr formatted \<longrightarrow>
        fst (record_event_body r c ev env) \<noteq> None)
   \<and> (fst (record_event_body r c ev env) \<noteq> None \<longrightarrow>
        last (logged (snd (record_event r w c ev env))) = (ERROR, ''error while recording event''))
   \<and> (buffer_of r c \<noteq> [] \<and> get_or (ev_camera_name ev') ''unknown'' = c \<longrightarrow>
        is_recording (fst (start_recording (fst (record_event r w c ev env)) w' ev')) c
        \<and> running_jobs (snd (start_recording (fst (record_event r w c ev env)) w' ev')) =
            running_jobs w' @ [(c, ev')])"
proof -
  let ?r' = "fst (record_event r w c ev env)"
  have flag: "recording ?r' c = Some False"
    by (simp add: record_event_def Let_def split: prod.splits)
  have buf: "frame_buffer ?r' = frame_buffer r"
    by (simp add: record_event_def Let_def split: prod.splits)
  have raised: "fst (record_event_body r c ev env) \<noteq> None"
    if hf: "fault env \<noteq> None" and hb: "buffer_of r c \<noteq> []" and hs: "stamp env = Inr formatted"
  proof -
    obtain st where st: "fault env = Some st" using hf by auto
    obtain frames where fr: "frame_buffer r c = Some frames" and ne: "frames \<noteq> []"
      using hb by (cases "frame_buffer r c") (auto simp: buffer_of_def get_or_def)
    show ?thesis
      using st fr ne hs by (cases st) (simp_all add: record_event_body_def Let_def)
  qed
  have logline: "last (logged (snd (record_event r w c ev env))) = (ERROR, ''error while recording event'')"
    if "fst (record_event_body r c ev env) \<noteq> None"
    using that by (auto simp: record_event_def Let_def split: prod.splits)
  have again: "is_recording (fst (start_recording ?r' w' ev')) c
        \<and> running_jobs (snd (start_recording ?r' w' ev')) = running_jobs w' @ [(c, ev')]"
    if hb: "buffer_of r c \<noteq> []" and hc: "get_or (ev_camera_name ev') ''unknown'' = c"
  proof -
    have "buffer_of ?r' c \<noteq> []" using hb by (simp add: buffer_of_def buf)
    moreover from this have "frame_buffer ?r' c \<noteq> None"
      by (auto simp: buffer_of_def get_or_def split: option.splits)
    moreover have "\<not> get_or (recording ?r' c) False" by (simp add: flag get_or_def)
    ultimately show ?thesis
      using hc by (simp add: start_recording_def is_recording_def get_or_def Let_def)
  qed
  show ?thesis using flag buf raised logline again by blast
qed

theorem record_event_clears_flag_witness:
  "fault env_metadata_fails \<noteq> None
   \<and> buffer_of (fst recorder_busy) ''cam1'' \<noteq> []
   \<and> fst (record_event_body (fst recorder_busy) ''cam1'' event_cam1 env_metadata_fails) \<noteq> None
   \<and> recording (fst (record_event (fst recorder_busy) (snd recorder_busy) ''cam1'' event_cam1
                      env_metadata_fails)) ''cam1'' = Some False
   \<and> last (logged (snd (record_event (fst recorder_busy) (snd recorder_busy) ''cam1'' event_cam1
                         env_metadata_fails))) = (ERROR, ''error while recording event'')
   \<and> is_recording (fst (start_recording
         (fst (record_event (fst recorder_busy) (snd recorder_busy) ''cam1'' event_cam1
                 env_metadata_fails)) world_init event_cam1)) ''cam1''
   \<and> running_jobs (snd (start_recording
         (fst (record_event (fst recorder_busy) (snd recorder_busy) ''cam1'' event_cam1
                 env_metadata_fails)) world_init event_cam1)) = [(''cam1'', event_cam1)]"
proof -
  have f: "fault env_metadata_fails \<noteq> None"
    by (simp add: env_metadata_fails_def)
  have s: "stamp env_metadata_fails = Inr ''19700101_000001''"
    by (simp add: env_metadata_fails_def env_ok_def)
  have b: "buffer_of (fst recorder_busy) ''cam1'' \<noteq> []"
    by (simp add: recorder_busy_def rec_run_def one_frame_then_two_triggers_def small_recorder_def
        VideoRecorder_init_def py_int_def world_init_def md_cam1_def frame_a_def frame_size_def
        get_or_def add_frame_def append_frame_def buffer_of_def start_recording_def event_cam1_def
        Let_def)
  have c: "get_or (ev_camera_name event_cam1) ''unknown'' = ''cam1''"
    by (simp add: event_cam1_def get_or_def)
  show ?thesis
    using record_event_clears_flag [of "fst recorder_busy" "snd recorder_busy" "''cam1''" event_cam1
        env_metadata_fails "''19700101_000001''" event_cam1 world_init] f s b c
    by (simp add: world_init_def)
qed

text \<open>
  C5 as stated fails on the mark: the recorder object left by a thread whose metadata
  file could not be opened is the recorder object left by the same thread when nothing
  fails; no field tells a failed job from a finished one.
\<close>

theorem failed_job_leaves_no_mark:
  "fst (record_event_body (fst recorder_busy) ''cam1'' event_cam1 env_metadata_fails)
     = Some (OtherError ''open'')
   \<and> fst (record_event_body (fst recorder_busy) ''cam1'' event_cam1 env_ok) = None
   \<and> fst (record_event (fst recorder_busy) (snd recorder_busy) ''cam1'' event_cam1 env_metadata_fails)
     = fst (record_event (fst recorder_busy) (snd recorder_busy) ''cam1'' event_cam1 env_ok)"
proof -
  have buf: "frame_buffer (fst recorder_busy) ''cam1'' =
               Some [\<lparr>fd_frame = frame_a, fd_timestamp = 1\<rparr>]"
    by (simp add: recorder_busy_def rec_run_def one_frame_then_two_triggers_def small_recorder_def
        VideoRecorder_init_def py_int_def world_init_def md_cam1_def frame_a_def frame_size_def
        get_or_def add_frame_def append_frame_def buffer_of_def start_recording_def event_cam1_def
        Let_def)
  have bad: "fst (record_event_body (fst recorder_busy) ''cam1'' event_cam1 env_metadata_fails)
               = Some (OtherError ''open'')"
    by (simp add: record_event_body_def buf env_metadata_fails_def env_ok_def Let_def)
  have good: "fst (record_event_body (fst recorder_busy) ''cam1'' event_cam1 env_ok) = None"
    by (simp add: record_event_body_def buf env_ok_def Let_def)
  have same: "fst (record_event r w c ev e1) = fst (record_event r w c ev e2)" for r w c ev e1 e2
    by (simp add: record_event_def Let_def split: prod.splits)
  show ?thesis using bad good same by blast
qed

section \<open>Event debounce\<close>

lemma best_of_member: "best_of b ds \<in> set (b # ds)"
  by (induction ds arbitrary: b) auto

lemma best_of_ge_first: "confidence b \<le> confidence (best_of b ds)"
proof (induction ds arbitrary: b)
  case Nil
  then show ?case by simp
next
  case (Cons d ds)
  show ?case using Cons.IH [of d] Cons.IH [of b] by auto
qed

lemma best_of_greatest: "d \<in> set (b # ds) \<Longrightarrow> confidence d \<le> confidence (best_of b ds)"
proof (induction ds arbitrary: b)
  case Nil
  then show ?case by simp
next
  case (Cons x xs)
  let ?b' = "if confidence b < confidence x then x else b"
  have step: "best_of b (x # xs) = best_of ?b' xs" by simp
  have first: "confidence ?b' \<le> confidence (best_of ?b' xs)" by (rule best_of_ge_first)
  consider "d = b" | "d = x" | "d \<in> set xs" using Cons.prems by auto
  then show ?case
  proof cases
    case 1
    then show ?thesis using first unfolding step by (auto split: if_splits)
  next
    case 2
    then show ?thesis using first unfolding step by (auto split: if_splits)
  next
    case 3
    then have "d \<in> set (?b' # xs)" by simp
    then show ?thesis unfolding step by (rule Cons.IH)
  qed
qed

lemma group_insert_keys:
  "map fst (group_insert d gs) =
     (if class_name d \<in> fst ` set gs then map fst gs else map fst gs @ [class_name d])"
proof (induction gs)
  case Nil
  then show ?case by simp
next
  case (Cons g gs)
  obtain k1 a1 as1 where g: "g = (k1, a1, as1)" by (cases g) auto
  show ?case
  proof (cases "k1 = class_name d")
    case True
    then show ?thesis by (simp add: g)
  next
    case False
    then have "(class_name d \<in> fst ` set (g # gs)) = (class_name d \<in> fst ` set gs)"
      by (auto simp: g)
    then show ?thesis using False Cons.IH by (simp add: g)
  qed
qed

lemma group_insert_member:
  assumes "distinct (map fst gs)" and "(k, d0, ds) \<in> set (group_insert d gs)"
  shows "(k \<noteq> class_name d \<and> (k, d0, ds) \<in> set gs)
       \<or> (k = class_name d \<and> (\<exists>ds'. (k, d0, ds') \<in> set gs \<and> ds = ds' @ [d]))
       \<or> (k = class_name d \<and> k \<notin> fst ` set gs \<and> d0 = d \<and> ds = [])"
  using assms
proof (induction gs)
  case Nil
  then show ?case by simp
next
  case (Cons g gs)
  obtain k1 a1 as1 where g: "g = (k1, a1, as1)" by (cases g) auto
  show ?case
  proof (cases "k1 = class_name d")
    case True
    then have ins: "group_insert d (g # gs) = (k1, a1, as1 @ [d]) # gs" by (simp add: g)
    have notin: "k1 \<notin> fst ` set gs" using Cons.prems(1) g by simp
    from Cons.prems(2) ins consider "(k, d0, ds) = (k1, a1, as1 @ [d])" | "(k, d0, ds) \<in> set gs"
      by auto
    then show ?thesis
    proof cases
      case 1
      then show ?thesis using True g by auto
    next
      case 2
      then have "k \<noteq> k1" using notin by force
      then show ?thesis using 2 True by auto
    qed
  next
    case False
    then have ins: "group_insert d (g # gs) = g # group_insert d gs" by (simp add: g)
    from Cons.prems(2) ins consider "(k, d0, ds) = g" | "(k, d0, ds) \<in> set (group_insert d gs)"
      by auto
    then show ?thesis
    proof cases
      case 1
      then show ?thesis using False g by auto
    next
      case 2
      have "distinct (map fst gs)" using Cons.prems(1) by simp
      from Cons.IH [OF this 2] show ?thesis using False g by auto
    qed
  qed
qed

lemma groups_of_insert:
  assumes "groups_of xs gs"
  shows "groups_of (xs @ [d]) (group_insert d gs)"
proof -
  from assms have dist: "distinct (map fst gs)"
    unfolding groups_of_def by (rule conjunct1)
  from assms have keys: "fst ` set gs = class_name ` set xs"
    unfolding groups_of_def by blast
  from assms have content_all:
    "\<forall>g \<in> set gs. fst (snd g) # snd (snd g) = filter (\<lambda>d. class_name d = fst g) xs"
    unfolding groups_of_def by blast
  have content: "d0 # ds = filter (\<lambda>d. class_name d = k) xs" if "(k, d0, ds) \<in> set gs" for k d0 ds
    using content_all that by force
  have keys': "map fst (group_insert d gs) =
     (if class_name d \<in> fst ` set gs then map fst gs else map fst gs @ [class_name d])"
    by (rule group_insert_keys)
  have d1: "distinct (map fst (group_insert d gs))"
  proof (cases "class_name d \<in> fst ` set gs")
    case True
    then show ?thesis using dist by (simp only: keys' if_True)
  next
    case False
    then have "class_name d \<notin> set (map fst gs)" by simp
    then show ?thesis using dist False by (simp only: keys' if_False distinct_append) simp
  qed
  have "set (map fst (group_insert d gs)) = insert (class_name d) (fst ` set gs)"
  proof (cases "class_name d \<in> fst ` set gs")
    case True
    then show ?thesis by (simp only: keys' if_True) auto
  next
    case False
    then show ?thesis by (simp only: keys' if_False) auto
  qed
  then have "fst ` set (group_insert d gs) = insert (class_name d) (class_name ` set xs)"
    by (simp only: set_map keys)
  then have d2: "fst ` set (group_insert d gs) = class_name ` set (xs @ [d])"
    by simp
  have d3: "fst (snd g) # snd (snd g) = filter (\<lambda>x. class_name x = fst g) (xs @ [d])"
    if mem: "g \<in> set (group_insert d gs)" for g
  proof -
    obtain k d0 ds where g: "g = (k, d0, ds)" by (cases g) auto
    have mem': "(k, d0, ds) \<in> set (group_insert d gs)" using mem by (simp only: g)
    from group_insert_member [OF dist mem']
    consider (other) "k \<noteq> class_name d" "(k, d0, ds) \<in> set gs"
      | (grown) ds' where "k = class_name d" "(k, d0, ds') \<in> set gs" "ds = ds' @ [d]"
      | (fresh) "k = class_name d" "k \<notin> fst ` set gs" "d0 = d" "ds = []"
      by blast
    then have "d0 # ds = filter (\<lambda>x. class_name x = k) (xs @ [d])"
    proof cases
      case other
      have "d0 # ds = filter (\<lambda>d. class_name d = k) xs" using other(2) by (rule content)
      then show ?thesis using other(1) by simp
    next
      case grown
      have "d0 # ds' = filter (\<lambda>d. class_name d = k) xs" using grown(2) by (rule content)
      then show ?thesis using grown(1,3) by simp
    next
      case fresh
      have "k \<notin> class_name ` set xs" unfolding keys [symmetric] by (rule fresh(2))
      then have "\<forall>x \<in> set xs. class_name x \<noteq> k" by blast
      then have "filter (\<lambda>x. class_name x = k) xs = []"
        by (simp only: filter_empty_conv)
      then show ?thesis using fresh(1,3,4) by simp
    qed
    then show ?thesis by (simp only: g fst_conv snd_conv)
  qed
  show ?thesis
    unfolding groups_of_def
  proof (intro conjI ballI)
    show "distinct (map fst (group_insert d gs))" by (rule d1)
    show "fst ` set (group_insert d gs) = class_name ` set (xs @ [d])" by (rule d2)
    show "fst (snd g) # snd (snd g) = filter (\<lambda>d. class_name d = fst g) (xs @ [d])"
      if "g \<in> set (group_insert d gs)" for g
      using that by (rule d3)
  qed
qed

lemma groups_of_foldl:
  "groups_of xs gs \<Longrightarrow> groups_of (xs @ ys) (foldl (\<lambda>gs d. group_insert d gs) gs ys)"
proof (induction ys arbitrary: xs gs)
  case Nil
  then show ?case by simp
next
  case (Cons y ys)
  have "groups_of (xs @ [y]) (group_insert y gs)" using Cons.prems by (rule groups_of_insert)
  from Cons.IH [OF this] show ?case by simp
qed

lemma groups_of_group_by_class: "groups_of dets (group_by_class dets)"
  using groups_of_foldl [of "[]" "[]" dets] by (simp add: group_by_class_def groups_of_def)

lemma distinct_count_one:
  "distinct xs \<Longrightarrow> length (filter (\<lambda>x. x = c) xs) = (if c \<in> set xs then 1 else 0)"
  by (induction xs) auto

lemma check_classes_skip:
  "t - get_or (lt (cam @ ''_'' @ k)) 0 < iv \<Longrightarrow>
   check_classes cam t iv ((k, d0, ds) # gs) lt = check_classes cam t iv gs lt"
  by (simp add: Let_def)

lemma check_classes_emit:
  "\<not> t - get_or (lt (cam @ ''_'' @ k)) 0 < iv \<Longrightarrow>
   check_classes cam t iv ((k, d0, ds) # gs) lt =
     (\<lparr>ev_type = Some k, ev_confidence = Some (confidence (best_of d0 ds)),
       ev_bbox = Some (bbox (best_of d0 ds)), ev_timestamp = Some t,
       ev_camera_name = Some cam\<rparr>
      # fst (check_classes cam t iv gs (lt(cam @ ''_'' @ k \<mapsto> t))),
      snd (check_classes cam t iv gs (lt(cam @ ''_'' @ k \<mapsto> t))))"
  by (simp add: Let_def split: prod.splits)

lemma check_classes_types:
  assumes "distinct (map fst gs)"
  shows "map ev_type (fst (check_classes cam t iv gs lt)) =
           map Some (filter (\<lambda>k. \<not> t - get_or (lt (cam @ ''_'' @ k)) 0 < iv) (map fst gs))"
  using assms
proof (induction gs arbitrary: lt)
  case Nil
  then show ?case by simp
next
  case (Cons g gs)
  obtain k d0 ds where g: "g = (k, d0, ds)" by (cases g) auto
  have dist: "distinct (map fst gs)" and fresh: "k \<notin> set (map fst gs)"
    using Cons.prems by (simp_all add: g)
  show ?case
  proof (cases "t - get_or (lt (cam @ ''_'' @ k)) 0 < iv")
    case True
    have "check_classes cam t iv (g # gs) lt = check_classes cam t iv gs lt"
      unfolding g using True by (rule check_classes_skip)
    moreover have "filter (\<lambda>k. \<not> t - get_or (lt (cam @ ''_'' @ k)) 0 < iv) (map fst (g # gs)) =
                   filter (\<lambda>k. \<not> t - get_or (lt (cam @ ''_'' @ k)) 0 < iv) (map fst gs)"
      using True by (simp add: g)
    ultimately show ?thesis using Cons.IH [OF dist, of lt] by (simp only:)
  next
    case False
    let ?lt' = "lt(cam @ ''_'' @ k \<mapsto> t)"
    let ?P = "\<lambda>m k'. \<not> t - get_or (m (cam @ ''_'' @ k')) 0 < iv"
    have same: "filter (?P ?lt') (map fst gs) = filter (?P lt) (map fst gs)"
    proof (rule filter_cong [OF refl])
      fix k' assume "k' \<in> set (map fst gs)"
      then have "k' \<noteq> k" using fresh by auto
      then have "?lt' (cam @ ''_'' @ k') = lt (cam @ ''_'' @ k')" by simp
      then show "?P ?lt' k' = ?P lt k'" by (simp only:)
    qed
    have "map ev_type (fst (check_classes cam t iv (g # gs) lt)) =
            Some k # map ev_type (fst (check_classes cam t iv gs ?lt'))"
      unfolding g check_classes_emit [where cam=cam and k=k and lt=lt and t=t and iv=iv, OF False] by simp
    also have "map ev_type (fst (check_classes cam t iv gs ?lt')) =
                 map Some (filter (?P ?lt') (map fst gs))"
      using dist by (rule Cons.IH)
    also have "Some k # map Some (filter (?P ?lt') (map fst gs)) =
                 map Some (filter (?P lt) (map fst (g # gs)))"
      unfolding same using False by (simp add: g)
    finally show ?thesis .
  qed
qed

lemma check_classes_event:
  "e \<in> set (fst (check_classes cam t iv gs lt)) \<Longrightarrow>
   \<exists>k d0 ds. (k, d0, ds) \<in> set gs
     \<and> e = \<lparr>ev_type = Some k, ev_confidence = Some (confidence (best_of d0 ds)),
            ev_bbox = Some (bbox (best_of d0 ds)), ev_timestamp = Some t,
            ev_camera_name = Some cam\<rparr>"
proof (induction gs arbitrary: lt)
  case Nil
  then show ?case by simp
next
  case (Cons g gs)
  obtain k d0 ds where g: "g = (k, d0, ds)" by (cases g) auto
  show ?case
  proof (cases "t - get_or (lt (cam @ ''_'' @ k)) 0 < iv")
    case True
    then have "check_classes cam t iv (g # gs) lt = check_classes cam t iv gs lt"
      unfolding g by (rule check_classes_skip)
    then have "e \<in> set (fst (check_classes cam t iv gs lt))"
      using Cons.prems by (simp only:)
    from Cons.IH [OF this] show ?thesis by auto
  next
    case False
    let ?lt' = "lt(cam @ ''_'' @ k \<mapsto> t)"
    let ?ev = "\<lparr>ev_type = Some k, ev_confidence = Some (confidence (best_of d0 ds)),
            ev_bbox = Some (bbox (best_of d0 ds)), ev_timestamp = Some t,
            ev_camera_name = Some cam\<rparr>"
    have "fst (check_classes cam t iv (g # gs) lt) = ?ev # fst (check_classes cam t iv gs ?lt')"
      unfolding g check_classes_emit [where cam=cam and k=k and lt=lt and t=t and iv=iv, OF False] by simp
    then consider "e = ?ev" | "e \<in> set (fst (check_classes cam t iv gs ?lt'))"
      using Cons.prems by auto
    then show ?thesis
    proof cases
      case 1
      then show ?thesis using g by auto
    next
      case 2
      from Cons.IH [OF this] show ?thesis by auto
    qed
  qed
qed

lemma check_classes_last:
  assumes "distinct (map fst gs)"
  shows "snd (check_classes cam t iv gs lt) (cam @ ''_'' @ c) =
           (if c \<in> set (map fst gs) \<and> \<not> t - get_or (lt (cam @ ''_'' @ c)) 0 < iv
            then Some t else lt (cam @ ''_'' @ c))"
  using assms
proof (induction gs arbitrary: lt)
  case Nil
  then show ?case by simp
next
  case (Cons g gs)
  obtain k d0 ds where g: "g = (k, d0, ds)" by (cases g) auto
  have dist: "distinct (map fst gs)" and fresh: "k \<notin> set (map fst gs)"
    using Cons.prems by (simp_all add: g)
  have keys: "set (map fst (g # gs)) = insert k (set (map fst gs))" by (simp add: g)
  show ?case
  proof (cases "t - get_or (lt (cam @ ''_'' @ k)) 0 < iv")
    case True
    have step: "check_classes cam t iv (g # gs) lt = check_classes cam t iv gs lt"
      unfolding g using True by (rule check_classes_skip)
    have ih: "snd (check_classes cam t iv gs lt) (cam @ ''_'' @ c) =
           (if c \<in> set (map fst gs) \<and> \<not> t - get_or (lt (cam @ ''_'' @ c)) 0 < iv
            then Some t else lt (cam @ ''_'' @ c))"
      using dist by (rule Cons.IH)
    show ?thesis
    proof (cases "c = k")
      case ck: True
      then show ?thesis unfolding step ih keys using True fresh by simp
    next
      case ck: False
      then show ?thesis unfolding step ih keys by simp
    qed
  next
    case False
    let ?lt' = "lt(cam @ ''_'' @ k \<mapsto> t)"
    have step: "snd (check_classes cam t iv (g # gs) lt) = snd (check_classes cam t iv gs ?lt')"
      unfolding g check_classes_emit [where cam=cam and k=k and lt=lt and t=t and iv=iv, OF False] by simp
    have ih: "snd (check_classes cam t iv gs ?lt') (cam @ ''_'' @ c) =
           (if c \<in> set (map fst gs) \<and> \<not> t - get_or (?lt' (cam @ ''_'' @ c)) 0 < iv
            then Some t else ?lt' (cam @ ''_'' @ c))"
      using dist by (rule Cons.IH)
    show ?thesis
    proof (cases "c = k")
      case ck: True
      then have notin: "c \<notin> set (map fst gs)" using fresh by simp
      have "?lt' (cam @ ''_'' @ c) = Some t" using ck by simp
      then have "snd (check_classes cam t iv gs ?lt') (cam @ ''_'' @ c) = Some t"
        unfolding ih using notin by simp
      then show ?thesis unfolding step keys using ck False by simp
    next
      case ck: False
      then have "?lt' (cam @ ''_'' @ c) = lt (cam @ ''_'' @ c)" by simp
      then have "snd (check_classes cam t iv gs ?lt') (cam @ ''_'' @ c) =
           (if c \<in> set (map fst gs) \<and> \<not> t - get_or (lt (cam @ ''_'' @ c)) 0 < iv
            then Some t else lt (cam @ ''_'' @ c))"
        unfolding ih by (simp only:)
      then show ?thesis unfolding step keys using ck by simp
    qed
  qed
qed
lemma count_type_check_classes:
  assumes "distinct (map fst gs)"
  shows "count_type c (fst (check_classes cam t iv gs lt)) =
           (if c \<in> set (map fst gs) \<and> \<not> t - get_or (lt (cam @ ''_'' @ c)) 0 < iv then 1 else 0)"
proof -
  let ?P = "\<lambda>k. \<not> t - get_or (lt (cam @ ''_'' @ k)) 0 < iv"
  let ?evs = "fst (check_classes cam t iv gs lt)"
  have "count_type c ?evs = length (filter (\<lambda>x. x = Some c) (map ev_type ?evs))"
    by (simp add: count_type_def filter_map comp_def)
  also have "\<dots> = length (filter (\<lambda>x. x = Some c) (map Some (filter ?P (map fst gs))))"
    using assms by (simp only: check_classes_types)
  also have "\<dots> = length (filter (\<lambda>k. k = c) (filter ?P (map fst gs)))"
    by (simp add: filter_map comp_def)
  also have "\<dots> = (if c \<in> set (filter ?P (map fst gs)) then 1 else 0)"
    using assms by (intro distinct_count_one) simp
  also have "\<dots> = (if c \<in> set (map fst gs) \<and> ?P c then 1 else 0)"
    by simp
  finally show ?thesis .
qed

lemma check_events_unfold:
  "check_events s dets md tm =
     (fst (check_classes (get_or (md_camera_name md) ''unknown'') (get_or (md_timestamp md) tm)
             (min_event_interval s) (group_by_class dets) (last_event_time s)),
      s\<lparr>last_event_time :=
          snd (check_classes (get_or (md_camera_name md) ''unknown'') (get_or (md_timestamp md) tm)
                 (min_event_interval s) (group_by_class dets) (last_event_time s))\<rparr>)"
  by (simp add: check_events_def Let_def split: prod.splits)

lemma group_keys: "set (map fst (group_by_class dets)) = class_name ` set dets"
  using groups_of_group_by_class [of dets] by (simp add: groups_of_def)

lemma group_distinct: "distinct (map fst (group_by_class dets))"
  using groups_of_group_by_class [of dets] by (simp add: groups_of_def)

lemma group_content:
  "(k, d0, ds) \<in> set (group_by_class dets) \<Longrightarrow> d0 # ds = filter (\<lambda>d. class_name d = k) dets"
  using groups_of_group_by_class [of dets] unfolding groups_of_def by force

lemma count_type_check_events:
  "count_type c (fst (check_events s dets md tm)) =
     (if c \<in> class_name ` set dets
         \<and> min_event_interval s \<le> get_or (md_timestamp md) tm
              - get_or (last_event_time s (get_or (md_camera_name md) ''unknown'' @ ''_'' @ c)) 0
      then 1 else 0)"
  unfolding check_events_unfold fst_conv
  by (simp only: count_type_check_classes [OF group_distinct] group_keys not_less)

lemma last_event_time_check_events:
  "last_event_time (snd (check_events s dets md tm)) (get_or (md_camera_name md) ''unknown'' @ ''_'' @ c) =
     (if c \<in> class_name ` set dets
         \<and> min_event_interval s \<le> get_or (md_timestamp md) tm
              - get_or (last_event_time s (get_or (md_camera_name md) ''unknown'' @ ''_'' @ c)) 0
      then Some (get_or (md_timestamp md) tm)
      else last_event_time s (get_or (md_camera_name md) ''unknown'' @ ''_'' @ c))"
proof -
  have "last_event_time (snd (check_events s dets md tm)) =
          snd (check_classes (get_or (md_camera_name md) ''unknown'') (get_or (md_timestamp md) tm)
                 (min_event_interval s) (group_by_class dets) (last_event_time s))"
    by (simp add: check_events_unfold)
  then show ?thesis
    by (simp only: check_classes_last [OF group_distinct] group_keys not_less)
qed

lemma event_of_check_events:
  assumes "e \<in> set (fst (check_events s dets md tm))"
  shows "\<exists>d \<in> set dets.
           e = \<lparr>ev_type = Some (class_name d), ev_confidence = Some (confidence d),
                ev_bbox = Some (bbox d), ev_timestamp = Some (get_or (md_timestamp md) tm),
                ev_camera_name = Some (get_or (md_camera_name md) ''unknown'')\<rparr>
           \<and> (\<forall>d' \<in> set dets. class_name d' = class_name d \<longrightarrow> confidence d' \<le> confidence d)"
proof -
  from assms obtain k d0 ds where mem: "(k, d0, ds) \<in> set (group_by_class dets)"
    and e: "e = \<lparr>ev_type = Some k, ev_confidence = Some (confidence (best_of d0 ds)),
            ev_bbox = Some (bbox (best_of d0 ds)),
            ev_timestamp = Some (get_or (md_timestamp md) tm),
            ev_camera_name = Some (get_or (md_camera_name md) ''unknown'')\<rparr>"
    unfolding check_events_unfold fst_conv by (blast dest: check_classes_event)
  have content: "d0 # ds = filter (\<lambda>d. class_name d = k) dets" using mem by (rule group_content)
  let ?b = "best_of d0 ds"
  have "?b \<in> set (d0 # ds)" by (rule best_of_member)
  then have bin: "?b \<in> set dets" and bk: "class_name ?b = k"
    unfolding content by simp_all
  have best: "confidence d' \<le> confidence ?b" if "d' \<in> set dets" and "class_name d' = class_name ?b" for d'
  proof -
    have "d' \<in> set (d0 # ds)" unfolding content using that bk by simp
    then show ?thesis by (rule best_of_greatest)
  qed
  show ?thesis
  proof (rule bexI [of _ ?b])
    show "?b \<in> set dets" by (rule bin)
    show "e = \<lparr>ev_type = Some (class_name ?b), ev_confidence = Some (confidence ?b),
                ev_bbox = Some (bbox ?b), ev_timestamp = Some (get_or (md_timestamp md) tm),
                ev_camera_name = Some (get_or (md_camera_name md) ''unknown'')\<rparr>
           \<and> (\<forall>d' \<in> set dets. class_name d' = class_name ?b \<longrightarrow> confidence d' \<le> confidence ?b)"
      using e bk best by blast
  qed
qed
text \<open>
  C3 (amended). For a batch handed to \<open>_check_events\<close> at time \<open>t\<close> on camera \<open>cam\<close>,
  and every class \<open>c\<close>: exactly one event of type \<open>c\<close> is emitted if the batch holds a
  detection of class \<open>c\<close> and \<open>t - last_event_time.get(cam_c, 0) \<ge> min_event_interval\<close>, and
  none otherwise, whatever the other classes of the batch do; every emitted event
  carries the confidence and box of a highest-confidence detection of its class, the
  time \<open>t\<close> and the camera. When a first batch with a detection of class \<open>c\<close> is itself
  outside the debounce window of \<open>c\<close> (a key that never fired counts as fired at time 0),
  a second batch of the same camera with a detection of class \<open>c\<close> at time \<open>t2\<close> brings
  the total for \<open>c\<close> to two events if \<open>t2 - t \<ge> min_event_interval\<close> and leaves it at one
  otherwise.
\<close>

theorem debounced_events:
  assumes "check_events s dets md tm = (evs, s')"
    and "check_events s' dets2 md2 tm2 = (evs2, s'')"
    and "cam = get_or (md_camera_name md) ''unknown''"
    and "t = get_or (md_timestamp md) tm"
    and "t2 = get_or (md_timestamp md2) tm2"
  shows "count_type c evs =
           (if c \<in> class_name ` set dets
               \<and> min_event_interval s \<le> t - get_or (last_event_time s (cam @ ''_'' @ c)) 0
            then 1 else 0)
       \<and> (\<forall>e \<in> set evs. \<exists>d \<in> set dets.
             e = \<lparr>ev_type = Some (class_name d), ev_confidence = Some (confidence d),
                  ev_bbox = Some (bbox d), ev_timestamp = Some t, ev_camera_name = Some cam\<rparr>
             \<and> (\<forall>d' \<in> set dets. class_name d' = class_name d \<longrightarrow> confidence d' \<le> confidence d))
       \<and> min_event_interval s' = min_event_interval s
       \<and> (get_or (md_camera_name md2) ''unknown'' = cam
            \<and> c \<in> class_name ` set dets \<and> c \<in> class_name ` set dets2
            \<and> min_event_interval s \<le> t - get_or (last_event_time s (cam @ ''_'' @ c)) 0
          \<longrightarrow> count_type c evs + count_type c evs2 = (if min_event_interval s \<le> t2 - t then 2 else 1))"
proof -
  have evs: "evs = fst (check_events s dets md tm)" and s': "s' = snd (check_events s dets md tm)"
    using assms(1) by simp_all
  have evs2: "evs2 = fst (check_events s' dets2 md2 tm2)"
    using assms(2) by simp
  have a: "count_type c evs =
           (if c \<in> class_name ` set dets
               \<and> min_event_interval s \<le> t - get_or (last_event_time s (cam @ ''_'' @ c)) 0
            then 1 else 0)"
    unfolding evs assms(3) assms(4) by (rule count_type_check_events)
  have b: "\<forall>e \<in> set evs. \<exists>d \<in> set dets.
             e = \<lparr>ev_type = Some (class_name d), ev_confidence = Some (confidence d),
                  ev_bbox = Some (bbox d), ev_timestamp = Some t, ev_camera_name = Some cam\<rparr>
             \<and> (\<forall>d' \<in> set dets. class_name d' = class_name d \<longrightarrow> confidence d' \<le> confidence d)"
    unfolding evs assms(3) assms(4) by (intro ballI event_of_check_events)
  have iv: "min_event_interval s' = min_event_interval s"
    unfolding s' by (simp add: check_events_unfold)
  have d: "count_type c evs + count_type c evs2 = (if min_event_interval s \<le> t2 - t then 2 else 1)"
    if same: "get_or (md_camera_name md2) ''unknown'' = cam"
      and in1: "c \<in> class_name ` set dets" and in2: "c \<in> class_name ` set dets2"
      and ok: "min_event_interval s \<le> t - get_or (last_event_time s (cam @ ''_'' @ c)) 0"
  proof -
    have one: "count_type c evs = 1" using a in1 ok by simp
    have "last_event_time s' (cam @ ''_'' @ c) =
            (if c \<in> class_name ` set dets
               \<and> min_event_interval s \<le> t - get_or (last_event_time s (cam @ ''_'' @ c)) 0
             then Some t else last_event_time s (cam @ ''_'' @ c))"
      unfolding s' assms(3) assms(4) by (rule last_event_time_check_events)
    then have lt: "last_event_time s' (cam @ ''_'' @ c) = Some t" using in1 ok by simp
    have "count_type c evs2 =
           (if c \<in> class_name ` set dets2
               \<and> min_event_interval s' \<le> t2 - get_or (last_event_time s' (cam @ ''_'' @ c)) 0
            then 1 else 0)"
      unfolding evs2 assms(5) same [symmetric] by (rule count_type_check_events)
    then have "count_type c evs2 = (if min_event_interval s \<le> t2 - t then 1 else 0)"
      unfolding lt iv using in2 by (simp add: get_or_def)
    then show ?thesis using one by simp
  qed
  show ?thesis using a b iv d by blast
qed

theorem debounced_events_witness:
  "count_type ''person'' (fst (check_events fresh_detector mixed_batch (md_cam1 100) 100)) = 1
   \<and> count_type ''car'' (fst (check_events fresh_detector mixed_batch (md_cam1 100) 100)) = 1
   \<and> count_type ''person'' (fst (check_events fresh_detector mixed_batch (md_cam1 100) 100))
     + count_type ''person''
         (fst (check_events (snd (check_events fresh_detector mixed_batch (md_cam1 100) 100))
                 [person_det (8 / 10)] (md_cam1 101) 101)) = 1
   \<and> count_type ''person'' (fst (check_events fresh_detector mixed_batch (md_cam1 100) 100))
     + count_type ''person''
         (fst (check_events (snd (check_events fresh_detector mixed_batch (md_cam1 100) 100))
                 [person_det (8 / 10)] (md_cam1 106) 106)) = 2
   \<and> map ev_confidence (fst (check_events fresh_detector mixed_batch (md_cam1 100) 100))
       = [Some (9 / 10), Some (6 / 10)]"
proof -
  let ?b1 = "check_events fresh_detector mixed_batch (md_cam1 100) 100"
  have p1: "?b1 = (fst ?b1, snd ?b1)" by simp
  have p2: "check_events (snd ?b1) [person_det (8 / 10)] (md_cam1 t2) t2 =
              (fst (check_events (snd ?b1) [person_det (8 / 10)] (md_cam1 t2) t2),
               snd (check_events (snd ?b1) [person_det (8 / 10)] (md_cam1 t2) t2))" for t2
    by simp
  have cam: "''cam1'' = get_or (md_camera_name (md_cam1 100)) ''unknown''"
    and cam2: "get_or (md_camera_name (md_cam1 t2)) ''unknown'' = ''cam1''"
    and t: "(100::real) = get_or (md_timestamp (md_cam1 100)) 100"
    and t2: "t2 = get_or (md_timestamp (md_cam1 t2)) t2" for t2
    by (simp_all add: md_cam1_def get_or_def)
  have iv: "min_event_interval fresh_detector = 5"
    and lt: "last_event_time fresh_detector k = None" for k
    by (simp_all add: fresh_detector_def EventDetector_init_def)
  have classes: "class_name ` set mixed_batch = {''person'', ''car''}"
    "class_name ` set [person_det (8 / 10)] = {''person''}"
    by (auto simp: mixed_batch_def person_det_def car_det_def)
  note near = debounced_events [OF p1 p2 [of 101] cam t t2 [of 101], of "''person''"]
  note far = debounced_events [OF p1 p2 [of 106] cam t t2 [of 106], of "''person''"]
  note car = debounced_events [OF p1 p2 [of 106] cam t t2 [of 106], of "''car''"]
  have c1: "count_type ''person'' (fst ?b1) = 1"
    using near by (simp add: classes iv lt get_or_def md_cam1_def person_det_def)
  have c2: "count_type ''car'' (fst ?b1) = 1"
    using car by (simp add: classes iv lt get_or_def md_cam1_def person_det_def)
  have c3: "count_type ''person'' (fst ?b1)
     + count_type ''person'' (fst (check_events (snd ?b1) [person_det (8 / 10)] (md_cam1 101) 101)) = 1"
    using near by (simp add: classes iv lt get_or_def md_cam1_def person_det_def)
  have c4: "count_type ''person'' (fst ?b1)
     + count_type ''person'' (fst (check_events (snd ?b1) [person_det (8 / 10)] (md_cam1 106) 106)) = 2"
    using far by (simp add: classes iv lt get_or_def md_cam1_def person_det_def)
  have c5: "map ev_confidence (fst ?b1) = [Some (9 / 10), Some (6 / 10)]"
    by (simp add: check_events_def fresh_detector_def EventDetector_init_def group_by_class_def
        mixed_batch_def person_det_def car_det_def md_cam1_def get_or_def Let_def)
  show ?thesis using c1 c2 c3 c4 c5 by blast
qed

text \<open>
  C3 as stated fails on a detector that never fired when the first detection comes
  before the interval has elapsed on the clock: a person at time 0 and again at time 6
  gives one event, not two, and a person at time 0 and again at time 1 gives none.
\<close>

theorem debounce_first_detection_suppressed:
  "count_type ''person'' (fst (check_events fresh_detector [person_det (9 / 10)] (md_cam1 0) 0))
   + count_type ''person''
       (fst (check_events (snd (check_events fresh_detector [person_det (9 / 10)] (md_cam1 0) 0))
               [person_det (9 / 10)] (md_cam1 6) 6)) = 1
   \<and> count_type ''person'' (fst (check_events fresh_detector [person_det (9 / 10)] (md_cam1 0) 0))
   + count_type ''person''
       (fst (check_events (snd (check_events fresh_detector [person_det (9 / 10)] (md_cam1 0) 0))
               [person_det (9 / 10)] (md_cam1 1) 1)) = 0"
  by (simp add: check_events_def fresh_detector_def EventDetector_init_def group_by_class_def
      person_det_def md_cam1_def get_or_def count_type_def Let_def)

section \<open>Detector failure\<close>

text \<open>
  C7 (amended). When the model is missing, or the inference raises, \<open>detect\<close> returns
  the empty list; a raised exception is logged, a missing model is not. The value
  returned is the plain empty list that a working model gives on a frame with no
  object: nothing else is handed to the caller.
\<close>

theorem detect_unavailable_returns_empty:
  assumes "od_model d = None
           \<or> (od_model d = Some m \<and> m f (case conf of Some c \<Rightarrow> c | None \<Rightarrow> conf_threshold d) = Inl e)"
    and "frame_size f \<noteq> 0"
  shows "fst (detect d (Some f) classes conf) = []
       \<and> fst (detect d (Some f) classes conf)
           = fst (detect (d\<lparr>od_model := Some (\<lambda>f c. Inr [])\<rparr>) (Some f) classes conf)
       \<and> snd (detect d (Some f) classes conf)
           = (if od_model d = None then [] else [(ERROR, ''error during object detection'')])"
  using assms by (auto simp: detect_def Let_def)

theorem detect_unavailable_returns_empty_witness:
  "od_model no_model_detector = None \<and> frame_size frame_a \<noteq> 0
   \<and> detect no_model_detector (Some frame_a) None None = ([], [])
   \<and> detect broken_detector (Some frame_a) None None = ([], [(ERROR, ''error during object detection'')])"
proof -
  have h1: "od_model no_model_detector = None
            \<or> (od_model no_model_detector = Some (\<lambda>f c. Inr [])
                \<and> (\<lambda>f c. Inr []) frame_a
                     (case None of Some c \<Rightarrow> c | None \<Rightarrow> conf_threshold no_model_detector)
                   = Inl (OtherError ''inference''))"
    by (simp add: no_model_detector_def)
  have h2: "od_model broken_detector = None
            \<or> (od_model broken_detector = Some (\<lambda>f c. Inl (OtherError ''inference''))
                \<and> (\<lambda>f c. Inl (OtherError ''inference'')) frame_a
                     (case None of Some c \<Rightarrow> c | None \<Rightarrow> conf_threshold broken_detector)
                   = Inl (OtherError ''inference''))"
    by (simp add: broken_detector_def)
  have nz: "frame_size frame_a \<noteq> 0" by (simp add: frame_a_def frame_size_def)
  have b: "od_model broken_detector \<noteq> None" by (simp add: broken_detector_def)
  show ?thesis
    using detect_unavailable_returns_empty [where d = no_model_detector and m = "\<lambda>f c. Inr []"
        and f = frame_a and conf = None and e = "OtherError ''inference''" and classes = None,
        OF h1 nz]
      detect_unavailable_returns_empty [where d = broken_detector
        and m = "\<lambda>f c. Inl (OtherError ''inference'')"
        and f = frame_a and conf = None and e = "OtherError ''inference''" and classes = None,
        OF h2 nz] nz b
    by (simp add: prod_eq_iff no_model_detector_def)
qed

text \<open>
  C7 as stated fails on the signal: with no model loaded \<open>detect\<close> gives the caller
  exactly what a working model gives on a frame without objects, log included.
\<close>

theorem missing_model_not_distinguishable:
  "detect no_model_detector (Some frame_a) None None = detect blind_detector (Some frame_a) None None
   \<and> fst (detect broken_detector (Some frame_a) None None)
     = fst (detect blind_detector (Some frame_a) None None)"
  by (simp add: detect_def no_model_detector_def blind_detector_def broken_detector_def
      frame_a_def frame_size_def Let_def)

section \<open>Live session configuration\<close>

text \<open>
  C10 (amended). After \<open>set_config\<close> with a confidence \<open>c\<close> that is not NaN, the stored
  threshold is \<open>c\<close> clamped into [0.05, 0.99] (a value below 0.05, minus infinity
  included, becomes 0.05, a value above 0.99, plus infinity included, becomes 0.99), it
  lies in that interval, and the detector's \<open>conf\<close> is the same value; \<open>None\<close> for the
  confidence leaves threshold and detector as they were, \<open>None\<close> for the classes leaves
  the classes as they were, and given classes are stored.
\<close>

theorem set_config_clamps:
  assumes "c \<noteq> NaN"
  shows "rs_conf (set_config s classes (Some c)) = clamped_into_range c
       \<and> fle (Num (5 / 100)) (rs_conf (set_config s classes (Some c)))
       \<and> fle (rs_conf (set_config s classes (Some c))) (Num (99 / 100))
       \<and> yd_conf (rs_detector (set_config s classes (Some c))) = rs_conf (set_config s classes (Some c))
       \<and> rs_conf (set_config s classes None) = rs_conf s
       \<and> rs_detector (set_config s classes None) = rs_detector s
       \<and> rs_classes (set_config s None conf) = rs_classes s
       \<and> rs_classes (set_config s (Some cl) conf) = Some cl"
proof -
  have stored: "rs_conf (set_config s classes (Some c)) = np_clip c (Num (5 / 100)) (Num (99 / 100))"
    and same: "yd_conf (rs_detector (set_config s classes (Some c))) = rs_conf (set_config s classes (Some c))"
    by (simp_all add: set_config_def Let_def split: option.splits)
  have clip: "np_clip c (Num (5 / 100)) (Num (99 / 100)) = clamped_into_range c"
    using assms
    by (cases c) (simp_all add: np_clip_def np_maximum_def np_minimum_def clamped_into_range_def)
  have range: "fle (Num (5 / 100)) (clamped_into_range c) \<and> fle (clamped_into_range c) (Num (99 / 100))"
    using assms by (cases c) (simp_all add: clamped_into_range_def fle_def)
  have rest: "rs_conf (set_config s classes None) = rs_conf s"
    "rs_detector (set_config s classes None) = rs_detector s"
    "rs_classes (set_config s None conf) = rs_classes s"
    "rs_classes (set_config s (Some cl) conf) = Some cl"
    by (simp_all add: set_config_def Let_def split: option.splits)
  show ?thesis using stored same clip range rest by simp
qed

theorem set_config_clamps_witness:
  "Num (9 / 10) \<noteq> NaN \<and> PosInf \<noteq> NaN
   \<and> rs_conf (set_config live_session None (Some (Num (9 / 10)))) = Num (9 / 10)
   \<and> rs_conf (set_config live_session None (Some (Num 2))) = Num (99 / 100)
   \<and> rs_conf (set_config live_session None (Some (Num (- 1)))) = Num (5 / 100)
   \<and> rs_conf (set_config live_session None (Some PosInf)) = Num (99 / 100)
   \<and> rs_conf (set_config live_session None (Some NegInf)) = Num (5 / 100)
   \<and> yd_conf (rs_detector (set_config live_session None (Some (Num 2)))) = Num (99 / 100)
   \<and> rs_conf (set_config live_session (Some [''person'']) None) = Num (1 / 2)
   \<and> rs_classes (set_config live_session (Some [''person'']) None) = Some [''person'']"
proof -
  have h: "Num (9 / 10) \<noteq> NaN" "Num 2 \<noteq> NaN" "Num (- 1) \<noteq> NaN"
    "PosInf \<noteq> NaN" "NegInf \<noteq> NaN"
    by simp_all
  show ?thesis
    using set_config_clamps [where c = "Num (9 / 10)" and s = live_session and classes = None
        and cl = "[''person'']" and conf = None, OF h(1)]
      set_config_clamps [where c = "Num 2" and s = live_session and classes = None
        and cl = "[''person'']" and conf = None, OF h(2)]
      set_config_clamps [where c = "Num (- 1)" and s = live_session and classes = None
        and cl = "[''person'']" and conf = None, OF h(3)]
      set_config_clamps [where c = PosInf and s = live_session and classes = None
        and cl = "[''person'']" and conf = None, OF h(4)]
      set_config_clamps [where c = NegInf and s = live_session and classes = None
        and cl = "[''person'']" and conf = None, OF h(5)]
      set_config_clamps [where c = "Num 2" and s = live_session
        and classes = "Some [''person'']" and cl = "[''person'']" and conf = None, OF h(2)]
    by (simp add: live_session_def clamped_into_range_def)
qed

text \<open>
  C10 as stated fails at NaN, which a request can carry: the clip of NaN is NaN, so the
  stored threshold and the detector's \<open>conf\<close> are NaN and lie outside [0.05, 0.99].
\<close>

theorem set_config_stores_nan:
  "rs_conf (set_config live_session None (Some NaN)) = NaN
   \<and> yd_conf (rs_detector (set_config live_session None (Some NaN))) = NaN
   \<and> \<not> fle (Num (5 / 100)) (rs_conf (set_config live_session None (Some NaN)))
   \<and> \<not> fle (rs_conf (set_config live_session None (Some NaN))) (Num (99 / 100))"
  by (simp add: set_config_def np_clip_def np_maximum_def np_minimum_def fle_def live_session_def
      Let_def)

section \<open>Stopping twice\<close>

text \<open>
  C8. A second \<open>stop()\<close> on a camera stream returns at once: the stream is as the
  first call left it, \<open>release()\<close> is called on nothing and nothing is logged. A second
  \<open>stop()\<close> on a live session leaves the session as the first call left it and calls
  \<open>release()\<close> on nothing, the handle having been dropped by the first call. A second
  \<open>remove_camera\<close> with the same id returns False, leaves the manager as the first call
  left it and calls \<open>release()\<close> on nothing. None of the second calls raises.
\<close>

theorem second_stop_is_noop:
  "stream_stop (fst (stream_stop s)) = (fst (stream_stop s), [], [])
   \<and> fst (session_stop (fst (session_stop rs x)) y) = fst (session_stop rs x)
   \<and> fst (snd (session_stop (fst (session_stop rs x)) y)) = []
   \<and> fst (remove_camera (fst (remove_camera m cid)) cid) = fst (remove_camera m cid)
   \<and> fst (snd (remove_camera (fst (remove_camera m cid)) cid)) = False
   \<and> fst (snd (snd (remove_camera (fst (remove_camera m cid)) cid))) = []"
proof -
  have a: "stream_stop (fst (stream_stop s)) = (fst (stream_stop s), [], [])"
    by (simp add: stream_stop_def)
  have b: "fst (session_stop (fst (session_stop rs x)) y) = fst (session_stop rs x)"
    "fst (snd (session_stop (fst (session_stop rs x)) y)) = []"
    by (simp_all add: session_stop_def rtsp_stop_def)
  have c: "remove_camera (fst (remove_camera m cid)) cid =
             (fst (remove_camera m cid), False, [],
              [(WARNING, ''attempt to remove a camera that does not exist'')])"
    by (cases "cameras m cid") (simp_all add: remove_camera_def)
  show ?thesis using a b by (simp add: c)
qed

theorem second_stop_is_noop_witness:
  "fst (snd (stream_stop streaming_cam)) = [open_capture]
   \<and> stream_stop (fst (stream_stop streaming_cam)) = (fst (stream_stop streaming_cam), [], [])
   \<and> fst (snd (session_stop live_session False)) = [open_capture]
   \<and> fst (snd (session_stop (fst (session_stop live_session False)) False)) = []
   \<and> fst (snd (remove_camera one_camera ''cam1'')) = True
   \<and> fst (snd (remove_camera (fst (remove_camera one_camera ''cam1'')) ''cam1'')) = False
   \<and> cameras (fst (remove_camera (fst (remove_camera one_camera ''cam1'')) ''cam1'')) = Map.empty"
proof -
  have first: "fst (snd (stream_stop streaming_cam)) = [open_capture]"
    "fst (snd (session_stop live_session False)) = [open_capture]"
    "fst (snd (remove_camera one_camera ''cam1'')) = True"
    "cameras (fst (remove_camera one_camera ''cam1'')) = Map.empty"
    by (simp_all add: stream_stop_def streaming_cam_def session_stop_def rtsp_stop_def
        live_session_def remove_camera_def one_camera_def)
  show ?thesis
    using second_stop_is_noop [where s = streaming_cam and rs = live_session and x = False
        and y = False and m = one_camera and cid = "''cam1''"] first
    by simp
qed

section \<open>Capture loop\<close>

lemma fan_out_deliveries: "fst (fan_out cbs f md) = map (\<lambda>cb. (f, md, cb f md)) cbs"
  by (induction cbs) (auto split: option.splits prod.splits)

lemma fan_out_log:
  "snd (fan_out cbs f md) =
     map (\<lambda>cb. (ERROR, ''error in callback'')) (filter (\<lambda>cb. cb f md \<noteq> None) cbs)"
  by (induction cbs) (auto split: option.splits prod.splits)

lemma cap_is_open_cases:
  "cap_is_open s \<Longrightarrow> \<exists>c. cap s = Some c \<and> is_open c"
  by (cases "cap s") (auto simp: cap_is_open_def)

lemma run_iter_frame:
  assumes "running s" and "cap_is_open s" and "grab t = GotFrame f"
  shows "fst (run_iter s l t) = s\<lparr>connected := True, cs_frame := Some f\<rparr>"
    and "error_count (fst (snd (run_iter s l t))) = 0"
    and "fst (snd (snd (run_iter s l t))) =
           map (\<lambda>cb. (f, frame_metadata s f (cb_time t), cb f (frame_metadata s f (cb_time t))))
             (callbacks s)"
proof -
  obtain c where c: "cap s = Some c" "is_open c"
    using cap_is_open_cases [OF assms(2)] by auto
  let ?s1 = "s\<lparr>connected := True, cs_frame := Some f\<rparr>"
  have ds: "fst (stream_process_frame ?s1 (Some f) (cb_time t)) =
          map (\<lambda>cb. (f, frame_metadata s f (cb_time t), cb f (frame_metadata s f (cb_time t))))
             (callbacks s)"
    by (simp add: stream_process_frame_def fan_out_deliveries frame_metadata_def)
  have iter: "run_iter s l t = read_part s l t"
    using assms(1,2) by (simp add: run_iter_def)
  show "fst (run_iter s l t) = ?s1"
    unfolding iter using c assms(3) by (simp add: read_part_def Let_def split: prod.splits)
  show "error_count (fst (snd (run_iter s l t))) = 0"
    unfolding iter using c assms(3) by (simp add: read_part_def Let_def split: prod.splits)
  have "fst (snd (snd (run_iter s l t))) = fst (stream_process_frame ?s1 (Some f) (cb_time t))"
    unfolding iter using c assms(3) by (simp add: read_part_def Let_def split: prod.splits)
  then show "fst (snd (snd (run_iter s l t))) =
           map (\<lambda>cb. (f, frame_metadata s f (cb_time t), cb f (frame_metadata s f (cb_time t))))
             (callbacks s)"
    by (simp only: ds)
qed

text \<open>
  C6. The fan-out calls every callback of the list once, in order, with the frame and
  its metadata, whatever the other callbacks do; each exception a callback raises is
  caught and logged as one error line. An iteration of the capture loop that reads a
  frame on a running, open stream ends with the stream still running on the same open
  capture, the error counter at zero, and the frame delivered to every callback.
\<close>

theorem callback_failure_is_isolated:
  "fst (fan_out cbs f md) = map (\<lambda>cb. (f, md, cb f md)) cbs
   \<and> snd (fan_out cbs f md) =
       map (\<lambda>cb. (ERROR, ''error in callback'')) (filter (\<lambda>cb. cb f md \<noteq> None) cbs)
   \<and> (running s \<and> cap_is_open s \<and> grab t = GotFrame f \<longrightarrow>
        fst (run_iter s l t) = s\<lparr>connected := True, cs_frame := Some f\<rparr>
        \<and> running (fst (run_iter s l t)) \<and> cap_is_open (fst (run_iter s l t))
        \<and> error_count (fst (snd (run_iter s l t))) = 0
        \<and> fst (snd (snd (run_iter s l t))) =
            map (\<lambda>cb. (f, frame_metadata s f (cb_time t), cb f (frame_metadata s f (cb_time t))))
              (callbacks s))"
proof -
  have loop: "fst (run_iter s l t) = s\<lparr>connected := True, cs_frame := Some f\<rparr>
        \<and> running (fst (run_iter s l t)) \<and> cap_is_open (fst (run_iter s l t))
        \<and> error_count (fst (snd (run_iter s l t))) = 0
        \<and> fst (snd (snd (run_iter s l t))) =
            map (\<lambda>cb. (f, frame_metadata s f (cb_time t), cb f (frame_metadata s f (cb_time t))))
              (callbacks s)"
    if r: "running s" and o: "cap_is_open s" and g: "grab t = GotFrame f"
  proof -
    note facts = run_iter_frame [OF r o g, of l]
    have "running (s\<lparr>connected := True, cs_frame := Some f\<rparr>)"
      and "cap_is_open (s\<lparr>connected := True, cs_frame := Some f\<rparr>)"
      using r o by (simp_all add: cap_is_open_def)
    then show ?thesis using facts by simp
  qed
  show ?thesis using fan_out_deliveries fan_out_log loop by blast
qed

theorem callback_failure_is_isolated_witness:
  "running streaming_cam \<and> cap_is_open streaming_cam \<and> grab (frame_tick 1) = GotFrame frame_a
   \<and> map (\<lambda>d. snd (snd d)) (fst (snd (snd (run_iter streaming_cam (run_locals_init 0) (frame_tick 1)))))
       = [None, Some (OtherError ''subscriber''), None]
   \<and> map fst (fst (snd (snd (run_iter streaming_cam (run_locals_init 0) (frame_tick 1)))))
       = [frame_a, frame_a, frame_a]
   \<and> running (fst (run_iter streaming_cam (run_locals_init 0) (frame_tick 1)))
   \<and> cap_is_open (fst (run_iter streaming_cam (run_locals_init 0) (frame_tick 1)))
   \<and> snd (fan_out (callbacks streaming_cam) frame_a (frame_metadata streaming_cam frame_a 1))
       = [(ERROR, ''error in callback'')]"
proof -
  have h: "running streaming_cam" "cap_is_open streaming_cam" "grab (frame_tick 1) = GotFrame frame_a"
    by (simp_all add: streaming_cam_def cap_is_open_def open_capture_def frame_tick_def)
  have cbs: "callbacks streaming_cam = [quiet_cb, raising_cb, quiet_cb]"
    by (simp add: streaming_cam_def)
  show ?thesis
    using callback_failure_is_isolated [where s = streaming_cam and t = "frame_tick 1"
        and f = frame_a and l = "run_locals_init 0" and cbs = "callbacks streaming_cam"
        and md = "frame_metadata streaming_cam frame_a 1"] h
    by (simp add: cbs quiet_cb_def raising_cb_def comp_def cap_is_open_def streaming_cam_def
        open_capture_def)
qed
lemma run_loop_nil: "run_loop st [] = st"
  by (cases st) simp

lemma run_loop_cons:
  "run_loop (s, l) (t # ts) = run_loop (fst (run_iter s l t), fst (snd (run_iter s l t))) ts"
  by (simp add: case_prod_beta)

lemma run_loop_append: "run_loop st (xs @ ys) = run_loop (run_loop st xs) ys"
proof (induction xs arbitrary: st)
  case Nil
  then show ?case by (simp add: run_loop_nil)
next
  case (Cons x xs)
  obtain s l where st: "st = (s, l)" by (cases st) auto
  show ?case unfolding st append_Cons run_loop_cons by (rule Cons.IH)
qed

lemma run_loop_single: "run_loop (s, l) [t] = (fst (run_iter s l t), fst (snd (run_iter s l t)))"
  unfolding run_loop_cons by (rule run_loop_nil)

lemma run_iter_read_fails:
  assumes "running s" and "cap_is_open s" and "read_fails l t"
  shows "fst (run_iter s l t) =
           (if error_count l + 1 > 5 then s\<lparr>cap := map_option release (cap s), connected := False\<rparr>
            else s)"
    and "fst (snd (run_iter s l t)) = l\<lparr>error_count := error_count l + 1\<rparr>"
proof -
  obtain c where c: "cap s = Some c" "is_open c"
    using cap_is_open_cases [OF assms(2)] by auto
  have iter: "run_iter s l t = read_part s l t"
    using assms(1,2) by (simp add: run_iter_def)
  have g: "grab t = ReadFailed" and p: "\<not> tk_now t - last_log_time l > 5"
    using assms(3) by (simp_all add: read_fails_def)
  show "fst (run_iter s l t) =
           (if error_count l + 1 > 5 then s\<lparr>cap := map_option release (cap s), connected := False\<rparr>
            else s)"
    unfolding iter using c g p by (simp add: read_part_def Let_def)
  show "fst (snd (run_iter s l t)) = l\<lparr>error_count := error_count l + 1\<rparr>"
    unfolding iter using c g p by (simp add: read_part_def Let_def)
qed

lemma run_iter_read_raises:
  assumes "running s" and "cap_is_open s" and "read_raises t"
  shows "fst (run_iter s l t) =
           (if error_count l + 1 > 3 then s\<lparr>cap := map_option release (cap s), connected := False\<rparr>
            else s)"
    and "fst (snd (run_iter s l t)) = l\<lparr>error_count := error_count l + 1\<rparr>"
proof -
  obtain c where c: "cap s = Some c" "is_open c"
    using cap_is_open_cases [OF assms(2)] by auto
  have iter: "run_iter s l t = read_part s l t"
    using assms(1,2) by (simp add: run_iter_def)
  obtain e where g: "grab t = ReadRaised e"
    using assms(3) by (cases "grab t") (simp_all add: read_raises_def)
  show "fst (run_iter s l t) =
           (if error_count l + 1 > 3 then s\<lparr>cap := map_option release (cap s), connected := False\<rparr>
            else s)"
    unfolding iter using c g by (simp add: read_part_def on_exception_def Let_def)
  show "fst (snd (run_iter s l t)) = l\<lparr>error_count := error_count l + 1\<rparr>"
    unfolding iter using c g by (simp add: read_part_def on_exception_def Let_def)
qed

lemma released_is_closed:
  "\<not> cap_is_open (s\<lparr>cap := map_option release (cap s), connected := False\<rparr>)
   \<and> \<not> connected (s\<lparr>cap := map_option release (cap s), connected := False\<rparr>)
   \<and> running (s\<lparr>cap := map_option release (cap s), connected := False\<rparr>) = running s"
  by (cases "cap s") (simp_all add: cap_is_open_def release_def)

lemma failures_below_threshold:
  assumes "running s" and "cap_is_open s"
  shows "list_all (read_fails l) ts \<Longrightarrow> error_count l + length ts \<le> 5 \<Longrightarrow>
         run_loop (s, l) ts = (s, l\<lparr>error_count := error_count l + length ts\<rparr>)"
proof (induction ts arbitrary: l)
  case Nil
  then show ?case by simp
next
  case (Cons t ts)
  have rf: "read_fails l t" and rest: "list_all (read_fails l) ts" using Cons.prems(1) by simp_all
  let ?l1 = "l\<lparr>error_count := error_count l + 1\<rparr>"
  have s1: "fst (run_iter s l t) = s" and l1: "fst (snd (run_iter s l t)) = ?l1"
    using run_iter_read_fails [OF assms rf] Cons.prems(2) by simp_all
  have same: "read_fails ?l1 = read_fails l" by (simp add: read_fails_def fun_eq_iff)
  have "run_loop (s, l) (t # ts) = run_loop (s, ?l1) ts"
    unfolding run_loop_cons s1 l1 by (rule refl)
  also have "\<dots> = (s, ?l1\<lparr>error_count := error_count ?l1 + length ts\<rparr>)"
  proof (rule Cons.IH)
    show "list_all (read_fails ?l1) ts" using rest by (simp only: same)
    show "error_count ?l1 + length ts \<le> 5" using Cons.prems(2) by simp
  qed
  finally show ?case by simp
qed

lemma exceptions_below_threshold:
  assumes "running s" and "cap_is_open s"
  shows "list_all read_raises ts \<Longrightarrow> error_count l + length ts \<le> 3 \<Longrightarrow>
         run_loop (s, l) ts = (s, l\<lparr>error_count := error_count l + length ts\<rparr>)"
proof (induction ts arbitrary: l)
  case Nil
  then show ?case by simp
next
  case (Cons t ts)
  have rf: "read_raises t" and rest: "list_all read_raises ts" using Cons.prems(1) by simp_all
  let ?l1 = "l\<lparr>error_count := error_count l + 1\<rparr>"
  have s1: "fst (run_iter s l t) = s" and l1: "fst (snd (run_iter s l t)) = ?l1"
    using run_iter_read_raises [OF assms rf] Cons.prems(2) by simp_all
  have "run_loop (s, l) (t # ts) = run_loop (s, ?l1) ts"
    unfolding run_loop_cons s1 l1 by (rule refl)
  also have "\<dots> = (s, ?l1\<lparr>error_count := error_count ?l1 + length ts\<rparr>)"
  proof (rule Cons.IH)
    show "list_all read_raises ts" by (rule rest)
    show "error_count ?l1 + length ts \<le> 3" using Cons.prems(2) by simp
  qed
  finally show ?case by simp
qed

text \<open>
  C4 (amended). On a running stream with an open capture and the failure counter at
  zero: up to five consecutive failed reads (with no periodic log in between) leave the
  stream as it is and only count; the sixth releases the capture and clears
  \<open>connected\<close>, so the next iteration takes the reconnection branch. Up to three
  consecutive reads that raise leave the stream as it is; the fourth releases the
  capture. A successful read sets the counter to zero.
\<close>

theorem reconnect_after_repeated_failures:
  assumes "running s" and "cap_is_open s" and "error_count l = 0"
  shows "(list_all (read_fails l) ts \<and> length ts \<le> 5 \<longrightarrow>
            run_loop (s, l) ts = (s, l\<lparr>error_count := length ts\<rparr>))
       \<and> (list_all (read_fails l) ts \<and> length ts = 6 \<longrightarrow>
            \<not> cap_is_open (fst (run_loop (s, l) ts)) \<and> \<not> connected (fst (run_loop (s, l) ts))
            \<and> running (fst (run_loop (s, l) ts)))
       \<and> (list_all read_raises ts \<and> length ts \<le> 3 \<longrightarrow>
            run_loop (s, l) ts = (s, l\<lparr>error_count := length ts\<rparr>))
       \<and> (list_all read_raises ts \<and> length ts = 4 \<longrightarrow>
            \<not> cap_is_open (fst (run_loop (s, l) ts)) \<and> \<not> connected (fst (run_loop (s, l) ts))
            \<and> running (fst (run_loop (s, l) ts)))
       \<and> (grab t = GotFrame f \<longrightarrow> error_count (fst (snd (run_iter s l' t))) = 0)"
proof -
  have a: "run_loop (s, l) ts = (s, l\<lparr>error_count := length ts\<rparr>)"
    if "list_all (read_fails l) ts" and "length ts \<le> 5"
    using failures_below_threshold [OF assms(1,2) that(1)] that(2) assms(3) by simp
  have c: "run_loop (s, l) ts = (s, l\<lparr>error_count := length ts\<rparr>)"
    if "list_all read_raises ts" and "length ts \<le> 3"
    using exceptions_below_threshold [OF assms(1,2) that(1)] that(2) assms(3) by simp
  have b: "\<not> cap_is_open (fst (run_loop (s, l) ts)) \<and> \<not> connected (fst (run_loop (s, l) ts))
            \<and> running (fst (run_loop (s, l) ts))"
    if all: "list_all (read_fails l) ts" and len: "length ts = 6"
  proof -
    have ne: "ts \<noteq> []" using len by auto
    then have split: "ts = butlast ts @ [last ts]" by simp
    have b5: "list_all (read_fails l) (butlast ts)" and l5: "length (butlast ts) = 5"
      and lastf: "read_fails l (last ts)"
      using all len ne by (auto simp: list_all_iff dest: in_set_butlastD)
    let ?l5 = "l\<lparr>error_count := 5\<rparr>"
    have five: "run_loop (s, l) (butlast ts) = (s, ?l5)"
      using failures_below_threshold [OF assms(1,2) b5] l5 assms(3) by simp
    have lastf': "read_fails ?l5 (last ts)" using lastf by (simp add: read_fails_def)
    have "run_loop (s, l) ts = run_loop (s, ?l5) [last ts]"
      using run_loop_append [of "(s, l)" "butlast ts" "[last ts]"] split five by simp
    then have "fst (run_loop (s, l) ts) = fst (run_iter s ?l5 (last ts))"
      unfolding run_loop_single by simp
    also have "\<dots> = s\<lparr>cap := map_option release (cap s), connected := False\<rparr>"
      using run_iter_read_fails(1) [OF assms(1,2) lastf'] by simp
    finally show ?thesis using released_is_closed [of s] assms(1) by simp
  qed
  have d: "\<not> cap_is_open (fst (run_loop (s, l) ts)) \<and> \<not> connected (fst (run_loop (s, l) ts))
            \<and> running (fst (run_loop (s, l) ts))"
    if all: "list_all read_raises ts" and len: "length ts = 4"
  proof -
    have ne: "ts \<noteq> []" using len by auto
    then have split: "ts = butlast ts @ [last ts]" by simp
    have b3: "list_all read_raises (butlast ts)" and l3: "length (butlast ts) = 3"
      and lastf: "read_raises (last ts)"
      using all len ne by (auto simp: list_all_iff dest: in_set_butlastD)
    let ?l3 = "l\<lparr>error_count := 3\<rparr>"
    have three: "run_loop (s, l) (butlast ts) = (s, ?l3)"
      using exceptions_below_threshold [OF assms(1,2) b3] l3 assms(3) by simp
    have "run_loop (s, l) ts = run_loop (s, ?l3) [last ts]"
      using run_loop_append [of "(s, l)" "butlast ts" "[last ts]"] split three by simp
    then have "fst (run_loop (s, l) ts) = fst (run_iter s ?l3 (last ts))"
      unfolding run_loop_single by simp
    also have "\<dots> = s\<lparr>cap := map_option release (cap s), connected := False\<rparr>"
      using run_iter_read_raises(1) [OF assms(1,2) lastf] by simp
    finally show ?thesis using released_is_closed [of s] assms(1) by simp
  qed
  have e: "error_count (fst (snd (run_iter s l' t))) = 0" if "grab t = GotFrame f"
    using assms(1,2) that by (rule run_iter_frame(2))
  show ?thesis using a b c d e by blast
qed
theorem reconnect_after_repeated_failures_witness:
  "running streaming_cam \<and> cap_is_open streaming_cam \<and> error_count (run_locals_init 0) = 0
   \<and> list_all (read_fails (run_locals_init 0)) six_failures
   \<and> list_all read_raises four_exceptions
   \<and> run_loop (streaming_cam, run_locals_init 0) (take 5 six_failures)
       = (streaming_cam, (run_locals_init 0)\<lparr>error_count := 5\<rparr>)
   \<and> \<not> cap_is_open (fst (run_loop (streaming_cam, run_locals_init 0) six_failures))
   \<and> run_loop (streaming_cam, run_locals_init 0) (take 3 four_exceptions)
       = (streaming_cam, (run_locals_init 0)\<lparr>error_count := 3\<rparr>)
   \<and> \<not> cap_is_open (fst (run_loop (streaming_cam, run_locals_init 0) four_exceptions))"
proof -
  have h: "running streaming_cam" "cap_is_open streaming_cam" "error_count (run_locals_init 0) = 0"
    by (simp_all add: streaming_cam_def cap_is_open_def open_capture_def run_locals_init_def)
  have f: "list_all (read_fails (run_locals_init 0)) six_failures"
    "list_all (read_fails (run_locals_init 0)) (take 5 six_failures)"
    "length six_failures = 6" "length (take 5 six_failures) = 5"
    by (simp_all add: six_failures_def failing_tick_def read_fails_def run_locals_init_def)
  have r: "list_all read_raises four_exceptions" "list_all read_raises (take 3 four_exceptions)"
    "length four_exceptions = 4" "length (take 3 four_exceptions) = 3"
    by (simp_all add: four_exceptions_def raising_tick_def read_raises_def)
  note six = reconnect_after_repeated_failures [OF h, where ts = six_failures]
  note five = reconnect_after_repeated_failures [OF h, where ts = "take 5 six_failures"]
  note four = reconnect_after_repeated_failures [OF h, where ts = four_exceptions]
  note three = reconnect_after_repeated_failures [OF h, where ts = "take 3 four_exceptions"]
  have a: "run_loop (streaming_cam, run_locals_init 0) (take 5 six_failures)
       = (streaming_cam, (run_locals_init 0)\<lparr>error_count := 5\<rparr>)"
    using five f(2,4) by simp
  have b: "\<not> cap_is_open (fst (run_loop (streaming_cam, run_locals_init 0) six_failures))"
    using six f(1,3) by simp
  have c: "run_loop (streaming_cam, run_locals_init 0) (take 3 four_exceptions)
       = (streaming_cam, (run_locals_init 0)\<lparr>error_count := 3\<rparr>)"
    using three r(2,4) by simp
  have d: "\<not> cap_is_open (fst (run_loop (streaming_cam, run_locals_init 0) four_exceptions))"
    using four r(1,3) by simp
  show ?thesis using h f(1) r(1) a b c d by blast
qed

text \<open>
  C4 as stated fails on the counts: after exactly five consecutive failed reads, and
  after exactly three consecutive reads that raise, the capture is still open and the
  stream still counts as connected. And the periodic log clears the counter, so twelve
  consecutive failed reads a second and a half apart leave the capture open as well.
\<close>

theorem five_failures_do_not_reconnect:
  "cap_is_open (fst (run_loop (streaming_cam, run_locals_init 0) (take 5 six_failures)))
   \<and> connected (fst (run_loop (streaming_cam, run_locals_init 0) (take 5 six_failures)))
   \<and> cap_is_open (fst (run_loop (streaming_cam, run_locals_init 0) (take 3 four_exceptions)))
   \<and> connected (fst (run_loop (streaming_cam, run_locals_init 0) (take 3 four_exceptions)))
   \<and> cap_is_open (fst (run_loop (streaming_cam, run_locals_init 0) slow_failures))"
  by (simp add: six_failures_def four_exceptions_def slow_failures_def failing_tick_def
      raising_tick_def streaming_cam_def open_capture_def run_locals_init_def run_iter_def
      read_part_def on_exception_def cap_is_open_def Let_def)

end
